theory Spec2Isabelle
  imports Main "HOL-Library.Word" "HOL-Library.Log_Nat"
begin

unbundle bit_operations_syntax

section \<open>NuGateway: Modbus RTU and BMS decoding (src/modbus\_reader.py)\<close>

text \<open>
  The development follows \<^verbatim>\<open>ModbusReader\<close> of \<^verbatim>\<open>src/modbus_reader.py\<close>; the
  class of the same name in \<^verbatim>\<open>src/nubank_complete.py\<close> repeats its BMS decoding line
  by line.

  Bytes received from the serial port (\<^verbatim>\<open>bytes\<close> objects, \<^verbatim>\<open>list(serial.read(n))\<close>)
  are 8-bit words. Every other Python \<^verbatim>\<open>int\<close> is an \<open>int\<close>.
\<close>

type_synonym byte = "8 word"

subsection \<open>CRC engine\<close>

text \<open>
  \<^verbatim>\<open>calculate_crc\<close>: the body of the inner \<^verbatim>\<open>for _ in range(8)\<close> loop is
  \<open>crc_shift\<close>, one pass of the outer loop is \<open>crc_byte\<close>. The register \<^verbatim>\<open>crc\<close>
  is a Python integer.
\<close>

definition crc_shift :: "int \<Rightarrow> int" where
  "crc_shift crc =
     (if crc AND 0x0001 \<noteq> 0 then drop_bit 1 crc XOR 0xA001 else drop_bit 1 crc)"

definition crc_byte :: "int \<Rightarrow> byte \<Rightarrow> int" where
  "crc_byte crc b = (crc_shift ^^ 8) (crc XOR uint b)"

definition calculate_crc :: "byte list \<Rightarrow> byte list" where
  "calculate_crc data =
     (let crc = foldl crc_byte 0xFFFF data
      in [word_of_int (crc AND 0xFF), word_of_int (drop_bit 8 crc AND 0xFF)])"

text \<open>
  \<^verbatim>\<open>verify_crc\<close>: \<^verbatim>\<open>data[-2:]\<close> and \<^verbatim>\<open>data[:-2]\<close> of a list of at least three
  elements are its last two elements and the rest.
\<close>

definition verify_crc :: "byte list \<Rightarrow> bool" where
  "verify_crc data =
     (if length data < 3 then False
      else drop (length data - 2) data = calculate_crc (take (length data - 2) data))"

subsection \<open>The serial line\<close>

text \<open>
  The port is the external collaborator of the decoders. It is modelled as opened
  successfully and never raising: \<open>rx_script\<close> lists what the successive
  \<^verbatim>\<open>serial.read\<close> calls return (nothing once it is used up), \<open>tx_log\<close> records the frames
  written, in order. Clearing the buffers and sleeping leave both unchanged.
\<close>

record serial =
  rx_script :: "byte list list"
  tx_log :: "byte list list"

definition serial_write :: "serial \<Rightarrow> byte list \<Rightarrow> serial" where
  "serial_write s tx = s\<lparr>tx_log := tx_log s @ [tx]\<rparr>"

text \<open>\<^verbatim>\<open>serial.read(n)\<close>: at most \<open>n\<close> bytes of what arrives.\<close>

definition serial_read :: "serial \<Rightarrow> nat \<Rightarrow> byte list \<times> serial" where
  "serial_read s n =
     (case rx_script s of
        [] \<Rightarrow> ([], s)
      | c # cs \<Rightarrow> (take n c, s\<lparr>rx_script := cs\<rparr>))"

text \<open>\<^verbatim>\<open>serial.read(serial.in_waiting or 255)\<close>: whatever that call returns.\<close>

definition serial_read_waiting :: "serial \<Rightarrow> byte list \<times> serial" where
  "serial_read_waiting s =
     (case rx_script s of
        [] \<Rightarrow> ([], s)
      | c # cs \<Rightarrow> (c, s\<lparr>rx_script := cs\<rparr>))"

subsection \<open>Standard register reader\<close>

text \<open>
  \<^verbatim>\<open>read_registers\<close> returns \<^verbatim>\<open>None\<close> on every failure and tells the failures apart
  in its log: "No response", "Modbus exception <code>", "CRC error", "Response too short".
  The model returns which one it was.
\<close>

datatype failure = NoResponse | DeviceException int | FrameCorrupt | FrameTooShort

text \<open>The request: six bytes and their CRC.\<close>

definition build_request :: "byte \<Rightarrow> int \<Rightarrow> int \<Rightarrow> byte \<Rightarrow> byte list" where
  "build_request slave_id start_address count function_code =
     (let request =
        [slave_id, function_code,
         word_of_int (drop_bit 8 start_address AND 0xFF), word_of_int (start_address AND 0xFF),
         word_of_int (drop_bit 8 count AND 0xFF), word_of_int (count AND 0xFF)]
      in request @ calculate_crc request)"

text \<open>
  The loop \<^verbatim>\<open>for i in range(0, len(data_bytes), 2)\<close>: a pair of bytes gives a register,
  a last byte without a partner gives nothing.
\<close>

fun to_registers :: "byte list \<Rightarrow> int list" where
  "to_registers (hi # lo # rest) = (push_bit 8 (uint hi) OR uint lo) # to_registers rest"
| "to_registers _ = []"

text \<open>\<^verbatim>\<open>byte_count = response[2]\<close> and \<^verbatim>\<open>data_bytes = response[3:3+byte_count]\<close>.\<close>

definition byte_count :: "byte list \<Rightarrow> nat" where
  "byte_count response = unat (response ! 2)"

definition data_bytes :: "byte list \<Rightarrow> byte list" where
  "data_bytes response = take (byte_count response) (drop 3 response)"

text \<open>What \<^verbatim>\<open>read_registers\<close> does with the response it has read.\<close>

definition parse_response :: "byte list \<Rightarrow> failure + int list" where
  "parse_response response =
     (if response = [] then Inl NoResponse
      else if 2 \<le> length response \<and> (response ! 1) AND 0x80 \<noteq> 0
        then Inl (DeviceException (if 2 < length response then uint (response ! 2) else 0))
      else if \<not> verify_crc response then Inl FrameCorrupt
      else if length response < 5 then Inl FrameTooShort
      else Inr (to_registers (data_bytes response)))"

definition read_registers ::
    "serial \<Rightarrow> byte \<Rightarrow> int \<Rightarrow> nat \<Rightarrow> byte \<Rightarrow> (failure + int list) \<times> serial" where
  "read_registers s slave_id start_address count function_code =
     (let s1 = serial_write s (build_request slave_id start_address (int count) function_code);
          expected_length = 3 + (count * 2) + 2;
          (response, s2) = serial_read s1 expected_length
      in (parse_response response, s2))"

text \<open>Python's truth value of what \<^verbatim>\<open>read_registers\<close> returns: neither \<^verbatim>\<open>None\<close> nor \<^verbatim>\<open>[]\<close>.\<close>

fun truthy :: "failure + int list \<Rightarrow> bool" where
  "truthy (Inr (r # rs)) = True"
| "truthy _ = False"

fun regs :: "failure + int list \<Rightarrow> int list" where
  "regs (Inr rs) = rs"
| "regs (Inl _) = []"


subsection \<open>Python floats\<close>

text \<open>
  A finite \<^verbatim>\<open>float\<close> is modelled by the rational number it denotes (so \<^verbatim>\<open>0.0\<close> and
  \<^verbatim>\<open>-0.0\<close>, which Python's \<^verbatim>\<open>==\<close> identifies, are one value). \<open>fl\<close> rounds a
  rational to the nearest binary64 number, ties to the even significand: \<open>expo q\<close> is the
  binary exponent of \<open>q\<close>, and the 53-bit significand is \<open>q / 2 ^ (expo q - 52)\<close> rounded
  to an integer. Overflow and subnormal numbers are not modelled: every magnitude computed by
  the decoders is 0 or lies between \<open>2 ^ -149\<close> and \<open>2 ^ 128\<close>.
\<close>

definition rhe :: "rat \<Rightarrow> int" where
  "rhe q =
     (let f = \<lfloor>q\<rfloor>; r = q - of_int f
      in if r < 1 / 2 then f else if 1 / 2 < r then f + 1 else if even f then f else f + 1)"

definition pow2 :: "int \<Rightarrow> rat" where
  "pow2 e = (if 0 \<le> e then 2 ^ nat e else 1 / 2 ^ nat (- e))"

definition expo :: "rat \<Rightarrow> int" where
  "expo q =
     (let (a, b) = quotient_of \<bar>q\<bar>; k = bitlen a - bitlen b
      in if pow2 k \<le> \<bar>q\<bar> then k else k - 1)"

definition fl :: "rat \<Rightarrow> rat" where
  "fl q = (if q = 0 then 0 else let u = pow2 (expo q - 52) in of_int (rhe (q / u)) * u)"

text \<open>
  The operations the decoders use. \<^verbatim>\<open>n / 1000.0\<close> converts the integer exactly and
  divides; \<^verbatim>\<open>round(x, nd)\<close> rounds the exact value of \<open>x\<close> to \<open>nd\<close> decimals, ties to
  even, and returns the nearest float; \<^verbatim>\<open>round(x)\<close> returns an integer, ties to even;
  \<^verbatim>\<open>sum\<close> adds from the left, starting from the integer 0.
\<close>

definition py_truediv :: "int \<Rightarrow> int \<Rightarrow> rat" where
  "py_truediv n d = fl (of_int n / of_int d)"

definition py_mul :: "rat \<Rightarrow> rat \<Rightarrow> rat" where
  "py_mul x y = fl (x * y)"

definition py_add :: "rat \<Rightarrow> rat \<Rightarrow> rat" where
  "py_add x y = fl (x + y)"

definition py_round_nd :: "rat \<Rightarrow> nat \<Rightarrow> rat" where
  "py_round_nd x nd = fl (of_int (rhe (x * 10 ^ nd)) / 10 ^ nd)"

definition py_round :: "rat \<Rightarrow> int" where
  "py_round x = rhe x"

definition py_sum :: "rat list \<Rightarrow> rat" where
  "py_sum xs = foldl py_add 0 xs"

subsection \<open>Readings\<close>

text \<open>
  The values stored in a reading, and a reading: a Python \<^verbatim>\<open>dict\<close> with string keys, kept
  in insertion order. \<open>VInf\<close> (with its sign) and \<open>VNaN\<close> are the floats that are not finite.
\<close>

datatype pyval = VFloat rat | VInf bool | VNaN | VInt int | VBool bool | VStr string

type_synonym dict = "(string \<times> pyval) list"

text \<open>\<^verbatim>\<open>data[key] = v\<close>, \<^verbatim>\<open>key in data\<close> and \<^verbatim>\<open>results.update(data)\<close>.\<close>

fun dict_set :: "dict \<Rightarrow> string \<Rightarrow> pyval \<Rightarrow> dict" where
  "dict_set [] k v = [(k, v)]"
| "dict_set ((k', v') # rest) k v =
     (if k' = k then (k, v) # rest else (k', v') # dict_set rest k v)"

definition dict_has :: "dict \<Rightarrow> string \<Rightarrow> bool" where
  "dict_has data k = (map_of data k \<noteq> None)"

definition dict_update :: "dict \<Rightarrow> dict \<Rightarrow> dict" where
  "dict_update results data = fold (\<lambda>(k, v) acc. dict_set acc k v) data results"

text \<open>\<^verbatim>\<open>return data if data else None\<close>.\<close>

definition nonempty_or_none :: "dict \<Rightarrow> dict option" where
  "nonempty_or_none data = (if data = [] then None else Some data)"

subsection \<open>MPPT decoder\<close>

text \<open>The float stored under a key whose presence has been tested.\<close>

fun float_at :: "dict \<Rightarrow> string \<Rightarrow> rat" where
  "float_at data k = (case map_of data k of Some (VFloat x) \<Rightarrow> x | _ \<Rightarrow> 0)"

definition read_mppt_data :: "serial \<Rightarrow> dict option \<times> serial" where
  "read_mppt_data s =
     (let slave_id = 0x01;
          data = [];
          (pv_voltage_reg, s) = read_registers s slave_id 0x304E 1 0x04;
          data = (if truthy pv_voltage_reg
                  then dict_set data ''mppt_pv_voltage''
                         (VFloat (py_round_nd (py_truediv (regs pv_voltage_reg ! 0) 100) 2))
                  else data);
          (pv_current_reg, s) = read_registers s slave_id 0x304F 1 0x04;
          data = (if truthy pv_current_reg
                  then dict_set data ''mppt_pv_current''
                         (VFloat (py_round_nd (py_truediv (regs pv_current_reg ! 0) 100) 2))
                  else data);
          (battery_soc_reg, s) = read_registers s slave_id 0x3045 1 0x04;
          data = (if truthy battery_soc_reg
                  then dict_set data ''mppt_battery_soc'' (VInt (regs battery_soc_reg ! 0))
                  else data);
          (battery_voltage_reg, s) = read_registers s slave_id 0x3046 1 0x04;
          data = (if truthy battery_voltage_reg
                  then dict_set data ''mppt_battery_voltage''
                         (VFloat (py_round_nd (py_truediv (regs battery_voltage_reg ! 0) 100) 2))
                  else data);
          (battery_current_reg, s) = read_registers s slave_id 0x3047 1 0x04;
          data = (if truthy battery_current_reg
                  then (let raw_current = regs battery_current_reg ! 0;
                            raw_current = (if raw_current > 0x7FFF then raw_current - 0x10000
                                           else raw_current)
                        in dict_set data ''mppt_battery_current''
                             (VFloat (py_round_nd (py_truediv raw_current 100) 2)))
                  else data);
          data = (if dict_has data ''mppt_pv_voltage'' \<and> dict_has data ''mppt_pv_current''
                  then dict_set data ''mppt_pv_power''
                         (VFloat (py_round_nd (py_mul (float_at data ''mppt_pv_voltage'')
                                                      (float_at data ''mppt_pv_current'')) 2))
                  else data);
          data = (if dict_has data ''mppt_battery_voltage''
                      \<and> dict_has data ''mppt_battery_current''
                  then dict_set data ''mppt_battery_power''
                         (VFloat (py_round_nd (py_mul (float_at data ''mppt_battery_voltage'')
                                                      (float_at data ''mppt_battery_current'')) 2))
                  else data)
      in (nonempty_or_none data, s))"

subsection \<open>BMS protocol codec\<close>

text \<open>
  \<^verbatim>\<open>bms_send\<close>: the frame and its additive checksum are written, one read follows,
  then at most three more as long as each returns something. The result is \<^verbatim>\<open>None\<close>
  when nothing came or when the checksum of all bytes but the last is not the last byte.
\<close>

definition bms_frame :: "byte \<Rightarrow> byte \<Rightarrow> byte list \<Rightarrow> byte list" where
  "bms_frame cmd rw data =
     (let frame = [0x3D, 0x01, 0x02, cmd, rw, 0x00, word_of_int (int (length data))] @ data;
          chk = sum_list (map uint frame) AND 0xFF
      in frame @ [word_of_int chk])"

fun drain :: "nat \<Rightarrow> serial \<Rightarrow> byte list \<Rightarrow> byte list \<times> serial" where
  "drain 0 s rx = (rx, s)"
| "drain (Suc n) s rx =
     (let (extra, s') = serial_read_waiting s
      in if extra \<noteq> [] then drain n s' (rx @ extra) else (rx, s'))"

definition checksum_ok :: "byte list \<Rightarrow> bool" where
  "checksum_ok rx = (sum_list (map uint (butlast rx)) AND 0xFF = uint (last rx))"

definition bms_send :: "serial \<Rightarrow> byte \<Rightarrow> byte list option \<times> serial" where
  "bms_send s cmd =
     (let s1 = serial_write s (bms_frame cmd 0x01 []);
          (rx, s2) = serial_read_waiting s1;
          (rx, s3) = drain 3 s2 rx
      in if rx = [] then (None, s3)
         else if \<not> checksum_ok rx then (None, s3)
         else (Some rx, s3))"

subsection \<open>BMS decoding\<close>

text \<open>
  Indexing a \<^verbatim>\<open>bytes\<close> object out of range raises \<^verbatim>\<open>IndexError\<close>, which
  \<^verbatim>\<open>read_bms_data\<close> catches at its end to return \<^verbatim>\<open>None\<close>. In the functions below
  the result \<open>None\<close> stands for that exception.
\<close>

definition u16_le :: "byte list \<Rightarrow> nat \<Rightarrow> int option" where
  "u16_le buf i =
     (if i + 1 < length buf then Some (uint (buf ! i) OR push_bit 8 (uint (buf ! (i + 1))))
      else None)"

definition i16_le :: "byte list \<Rightarrow> nat \<Rightarrow> int option" where
  "i16_le buf i = map_option (\<lambda>v. if v > 32767 then v - 65536 else v) (u16_le buf i)"

text \<open>
  Command 0x27. \<^verbatim>\<open>d = rx[6:-1]\<close>, and \<^verbatim>\<open>d[-1]\<close> raises when \<open>d\<close> is empty, that is
  when the response has exactly seven bytes.
\<close>

definition read_series_count :: "byte list option \<Rightarrow> nat option" where
  "read_series_count rx =
     (case rx of
        None \<Rightarrow> Some 4
      | Some r \<Rightarrow>
          if length r > 6
          then (let d = butlast (drop 6 r)
                in if d = [] then None
                   else Some (if 1 \<le> uint (last d) \<and> uint (last d) \<le> 24
                              then unat (last d) else 4))
          else Some 4)"

text \<open>The list comprehension of the cell voltages.\<close>

definition cell_voltages :: "byte list \<Rightarrow> nat \<Rightarrow> rat list option" where
  "cell_voltages d series_count =
     those (map (\<lambda>i. map_option (\<lambda>v. py_round_nd (py_truediv v 1000) 3) (u16_le d (i * 2)))
                [0..<series_count])"

definition cell_or_zero :: "rat list \<Rightarrow> nat \<Rightarrow> pyval" where
  "cell_or_zero cells k = VFloat (if length cells > k then cells ! k else 0)"

text \<open>\<^verbatim>\<open>v_guess = int(round(total_v * 100))\<close>.\<close>

definition v_guess_of :: "rat \<Rightarrow> int" where
  "v_guess_of total_v = py_round (py_mul total_v 100)"

text \<open>
  The loop that skips zero padding, over the indices \<^verbatim>\<open>range(start, len(d))\<close> that are
  left, with the loop's variables \<^verbatim>\<open>zero_run\<close> and \<^verbatim>\<open>base_start\<close>.
\<close>

fun zero_loop :: "byte list \<Rightarrow> nat list \<Rightarrow> nat \<Rightarrow> nat \<Rightarrow> nat" where
  "zero_loop d [] zero_run base_start = base_start"
| "zero_loop d (i # is) zero_run base_start =
     (if d ! i = 0x00 then zero_loop d is (zero_run + 1) base_start
      else if zero_run \<ge> 16 then i
      else zero_loop d is 0 base_start)"

definition scan_start :: "nat \<Rightarrow> nat" where
  "scan_start series_count = max (2 * series_count) 8"

definition base_start_of :: "byte list \<Rightarrow> nat \<Rightarrow> nat" where
  "base_start_of d series_count =
     (let start = scan_start series_count
      in zero_loop d [start..<length d] 0 start)"

text \<open>
  The loop that looks for the pack voltage marker, over the indices
  \<^verbatim>\<open>range(base_start, len(d) - 8)\<close> that are left. \<open>Some None\<close> is a \<^verbatim>\<open>pack_idx\<close>
  left at \<^verbatim>\<open>None\<close>.
\<close>

fun find_loop :: "byte list \<Rightarrow> int \<Rightarrow> int \<Rightarrow> nat list \<Rightarrow> nat option option" where
  "find_loop d v_low v_high [] = Some None"
| "find_loop d v_low v_high (i # is) =
     (case u16_le d i of
        None \<Rightarrow> None
      | Some val \<Rightarrow>
          if v_low \<le> val \<and> val \<le> v_high then Some (Some i)
          else find_loop d v_low v_high is)"

definition find_pack_idx :: "byte list \<Rightarrow> nat \<Rightarrow> int \<Rightarrow> nat option option" where
  "find_pack_idx d base_start v_guess =
     (let v_low = v_guess - 12; v_high = v_guess + 12
      in find_loop d v_low v_high [base_start..<length d - 8])"

text \<open>
  \<^verbatim>\<open>soc = cand_soc if 0 <= cand_soc <= 100 else 0\<close>, where the candidate is the byte at
  the index, or 255 when the index is beyond the payload.
\<close>

definition soc_at :: "byte list \<Rightarrow> nat \<Rightarrow> int" where
  "soc_at d i =
     (let cand = (if i < length d then uint (d ! i) else 255)
      in if 0 \<le> cand \<and> cand \<le> 100 then cand else 0)"

text \<open>
  The pack summary \<open>(vpack, ipack, soc, soh)\<close>, from the cell sum when \<^verbatim>\<open>pack_idx\<close> is
  \<^verbatim>\<open>None\<close> and from the payload otherwise.
\<close>

definition pack_summary ::
    "byte list \<Rightarrow> rat \<Rightarrow> nat option \<Rightarrow> (rat \<times> rat \<times> int \<times> int) option" where
  "pack_summary d total_v pack_idx =
     (case pack_idx of
        None \<Rightarrow> Some (py_round_nd total_v 2, 0, 0, 0)
      | Some p \<Rightarrow>
          (case u16_le d p of
             None \<Rightarrow> None
           | Some v \<Rightarrow>
               (case i16_le d (p + 2) of
                  None \<Rightarrow> None
                | Some c \<Rightarrow>
                    Some (py_round_nd (py_truediv v 100) 2, py_round_nd (py_truediv c 100) 2,
                          soc_at d (p + 6), soc_at d (p + 7)))))"

text \<open>
  The decoding of a command-0x00 payload \<open>d\<close> (\<^verbatim>\<open>rx[6:-1][1:]\<close>) into the reading
  \<open>data\<close>.
\<close>

definition decode_realtime :: "byte list \<Rightarrow> nat \<Rightarrow> dict \<Rightarrow> dict option" where
  "decode_realtime d series_count data =
     (case cell_voltages d series_count of
        None \<Rightarrow> None
      | Some cells \<Rightarrow>
          (let data = dict_set data ''bms_cell_1_voltage'' (cell_or_zero cells 0);
               data = dict_set data ''bms_cell_2_voltage'' (cell_or_zero cells 1);
               data = dict_set data ''bms_cell_3_voltage'' (cell_or_zero cells 2);
               data = dict_set data ''bms_cell_4_voltage'' (cell_or_zero cells 3);
               total_v = py_sum cells;
               v_guess = v_guess_of total_v;
               base_start = base_start_of d series_count
           in case find_pack_idx d base_start v_guess of
                None \<Rightarrow> None
              | Some pack_idx \<Rightarrow>
                  (case pack_summary d total_v pack_idx of
                     None \<Rightarrow> None
                   | Some (vpack, ipack, soc, soh) \<Rightarrow>
                       (let data = dict_set data ''bms_battery_voltage'' (VFloat vpack);
                            data = dict_set data ''bms_battery_current'' (VFloat ipack);
                            data = dict_set data ''bms_battery_soc'' (VInt soc);
                            data = dict_set data ''bms_battery_soh'' (VInt soh);
                            data = dict_set data ''bms_battery_power''
                                     (VFloat (py_round_nd (py_mul vpack ipack) 2))
                        in Some data))))"

text \<open>The guard \<^verbatim>\<open>if rx and len(rx) > 20\<close> around it.\<close>

definition read_realtime :: "byte list option \<Rightarrow> nat \<Rightarrow> dict \<Rightarrow> dict option" where
  "read_realtime rx series_count data =
     (case rx of
        None \<Rightarrow> Some data
      | Some r \<Rightarrow>
          if length r > 20 then decode_realtime (tl (butlast (drop 6 r))) series_count data
          else Some data)"

text \<open>One pass of the loop over the two MOS commands.\<close>

definition read_mos :: "serial \<Rightarrow> byte \<Rightarrow> string \<Rightarrow> dict \<Rightarrow> dict \<times> serial" where
  "read_mos s cmd key data =
     (let (rx, s1) = bms_send s cmd
      in case rx of
           None \<Rightarrow> (dict_set data key (VStr ''UNKNOWN''), s1)
         | Some r \<Rightarrow>
             if length r \<ge> 8
             then (dict_set data key (VStr (if r ! 7 = 1 then ''ON'' else ''OFF'')), s1)
             else (dict_set data key (VStr ''UNKNOWN''), s1))"

definition read_bms_data :: "serial \<Rightarrow> dict option \<times> serial" where
  "read_bms_data s =
     (let data = [];
          (rx, s1) = bms_send s 0x27
      in case read_series_count rx of
           None \<Rightarrow> (None, s1)
         | Some series_count \<Rightarrow>
             (let (rx, s2) = bms_send s1 0x00
              in case read_realtime rx series_count data of
                   None \<Rightarrow> (None, s2)
                 | Some data \<Rightarrow>
                     (let (data, s3) = read_mos s2 0x2D ''bms_discharge_mos_status'' data;
                          (data, s4) = read_mos s3 0x2E ''bms_charge_mos_status'' data
                      in (Some data, s4))))"

subsection \<open>ENV, LDR and PIR decoders\<close>

text \<open>
  \<^verbatim>\<open>struct.pack('>HH', r0, r1)\<close> raises unless both registers fit 16 bits, and the
  decoder passes over the exception; \<^verbatim>\<open>struct.unpack('>f', ...)\<close> reads the 32 bits as an
  IEEE-754 single, and \<^verbatim>\<open>round(x, 1)\<close> leaves an infinity and a NaN as they are.
\<close>

definition f32_value :: "int \<Rightarrow> pyval" where
  "f32_value bits =
     (let sign = (if bit bits 31 then - 1 else 1);
          e = drop_bit 23 bits AND 0xFF;
          m = bits AND 0x7FFFFF
      in if e = 255 then (if m = 0 then VInf (bit bits 31) else VNaN)
         else if e = 0 then VFloat (sign * of_int m * pow2 (- 149))
         else VFloat (sign * of_int (0x800000 + m) * pow2 (e - 150)))"

definition round1 :: "pyval \<Rightarrow> pyval" where
  "round1 v = (case v of VFloat x \<Rightarrow> VFloat (py_round_nd x 1) | _ \<Rightarrow> v)"

definition env_field :: "dict \<Rightarrow> string \<Rightarrow> failure + int list \<Rightarrow> dict" where
  "env_field data key reg =
     (if truthy reg \<and> length (regs reg) \<ge> 2
      then (let r0 = regs reg ! 0; r1 = regs reg ! 1
            in if 0 \<le> r0 \<and> r0 \<le> 0xFFFF \<and> 0 \<le> r1 \<and> r1 \<le> 0xFFFF
               then dict_set data key (round1 (f32_value (push_bit 16 r0 OR r1)))
               else data)
      else data)"

definition read_env_data :: "serial \<Rightarrow> dict option \<times> serial" where
  "read_env_data s =
     (let slave_id = 0x7B;
          data = [];
          (co2_reg, s) = read_registers s slave_id 0x0008 2 0x03;
          data = env_field data ''env_co2'' co2_reg;
          (temp_reg, s) = read_registers s slave_id 0x000E 2 0x03;
          data = env_field data ''env_temperature'' temp_reg;
          (hum_reg, s) = read_registers s slave_id 0x0010 2 0x03;
          data = env_field data ''env_humidity'' hum_reg
      in (nonempty_or_none data, s))"

definition read_ldr_data :: "serial \<Rightarrow> dict option \<times> serial" where
  "read_ldr_data s =
     (let slave_id = 0x04;
          data = [];
          (ldr_reg, s) = read_registers s slave_id 0x0000 2 0x03;
          data = (if truthy ldr_reg \<and> length (regs ldr_reg) \<ge> 2
                  then dict_set data ''ldr_lux''
                         (VInt (push_bit 16 (regs ldr_reg ! 0) OR regs ldr_reg ! 1))
                  else data)
      in (nonempty_or_none data, s))"

definition read_pir_data :: "serial \<Rightarrow> dict option \<times> serial" where
  "read_pir_data s =
     (let slave_id = 0x02;
          data = [];
          (pir_reg, s) = read_registers s slave_id 0x0000 1 0x03;
          data = (if truthy pir_reg
                  then dict_set data ''pir_motion_detected'' (VBool (regs pir_reg ! 0 \<noteq> 0))
                  else data)
      in (nonempty_or_none data, s))"

subsection \<open>Poll orchestrator\<close>

text \<open>\<^verbatim>\<open>if x_data: results.update(x_data)\<close>: neither \<^verbatim>\<open>None\<close> nor an empty reading.\<close>

definition merge_reading :: "dict \<Rightarrow> dict option \<Rightarrow> dict" where
  "merge_reading results reading =
     (case reading of
        None \<Rightarrow> results
      | Some data \<Rightarrow> if data \<noteq> [] then dict_update results data else results)"

definition read_all_devices :: "serial \<Rightarrow> dict \<times> serial" where
  "read_all_devices s =
     (let results = [];
          (mppt_data, s) = read_mppt_data s;
          results = merge_reading results mppt_data;
          (env_data, s) = read_env_data s;
          results = merge_reading results env_data;
          (ldr_data, s) = read_ldr_data s;
          results = merge_reading results ldr_data;
          (bms_data, s) = read_bms_data s;
          results = merge_reading results bms_data;
          (pir_data, s) = read_pir_data s;
          results = merge_reading results pir_data
      in (results, s))"


subsection \<open>Vocabulary of the locator's properties\<close>

text \<open>The millivolts of cell \<open>i\<close> (counted from 0) in the payload.\<close>

definition cell_mv :: "byte list \<Rightarrow> nat \<Rightarrow> int" where
  "cell_mv d i = uint (d ! (2 * i)) + 256 * uint (d ! (2 * i + 1))"



text \<open>
  The little-endian 16-bit value at offset \<open>i\<close> lies in the window of twelve centivolts
  around \<open>v_guess\<close>.
\<close>

definition in_window :: "byte list \<Rightarrow> int \<Rightarrow> nat \<Rightarrow> bool" where
  "in_window d v_guess i =
     (case u16_le d i of
        None \<Rightarrow> False
      | Some val \<Rightarrow> v_guess - 12 \<le> val \<and> val \<le> v_guess + 12)"


text \<open>The map of a reading that a decoder returns; of none when it returns \<^verbatim>\<open>None\<close>.\<close>

definition reading_map :: "dict option \<Rightarrow> (string \<rightharpoonup> pyval)" where
  "reading_map reading = (case reading of None \<Rightarrow> Map.empty | Some data \<Rightarrow> map_of data)"




definition pir_requests :: "byte list list" where
  "pir_requests = [build_request 0x02 0x0000 1 0x03]"

definition bms_requests :: "byte list list" where
  "bms_requests = map (\<lambda>cmd. bms_frame cmd 0x01 []) [0x27, 0x00, 0x2D, 0x2E]"


subsection \<open>Recorded exchanges\<close>

text \<open>
  Command-0x00 payloads (\<^verbatim>\<open>d\<close>, the response without its framing) of a pack of four
  cells at 3.200, 3.300, 3.200 and 3.300 volts, 13.00 volts together. After the cells come
  two bytes 0xFF, then the pack block: voltage, current 3.00 A, two bytes, SOC, SOH, and one
  more byte. The pack voltage is 1312 or 1313 centivolts; the SOC byte is 80, 200 or 0.
\<close>

definition cells_13V :: "byte list" where
  "cells_13V = [0x80, 0x0C, 0xE4, 0x0C, 0x80, 0x0C, 0xE4, 0x0C]"

definition payload_1312 :: "byte list" where
  "payload_1312 =
     cells_13V @ [0xFF, 0xFF, 0x20, 0x05, 0x2C, 0x01, 0x00, 0x00, 0x50, 0x64, 0x00]"

definition payload_1313 :: "byte list" where
  "payload_1313 =
     cells_13V @ [0xFF, 0xFF, 0x21, 0x05, 0x2C, 0x01, 0x00, 0x00, 0x50, 0x64, 0x00]"

definition payload_soc_200 :: "byte list" where
  "payload_soc_200 =
     cells_13V @ [0xFF, 0xFF, 0x20, 0x05, 0x2C, 0x01, 0x00, 0x00, 0xC8, 0x64, 0x00]"

definition payload_soc_0 :: "byte list" where
  "payload_soc_0 =
     cells_13V @ [0xFF, 0xFF, 0x20, 0x05, 0x2C, 0x01, 0x00, 0x00, 0x00, 0x64, 0x00]"






definition cells_12V :: "byte list" where
  "cells_12V = [0xB8, 0x0B, 0xB8, 0x0B, 0xB8, 0x0B, 0xB8, 0x0B]"

definition payload_1200 :: "byte list" where
  "payload_1200 =
     cells_12V @ [0xFF, 0xFF, 0xB0, 0x04, 0x2C, 0x01, 0x00, 0x00, 0x50, 0x64, 0x00]"

text \<open>
  BMS responses: six header bytes, one byte that the decoder skips, the payload, the
  checksum. The cell count 4, the cell count 24, \<open>payload_1313\<close>, a payload of 13 bytes,
  and the two MOS states.
\<close>

definition rx_count_4 :: "byte list" where
  "rx_count_4 = [0x3D, 0x01, 0x02, 0x27, 0x01, 0x00, 0x04, 0x6C]"

definition rx_count_24 :: "byte list" where
  "rx_count_24 = [0x3D, 0x01, 0x02, 0x27, 0x01, 0x00, 0x18, 0x80]"

definition rx_realtime_1313 :: "byte list" where
  "rx_realtime_1313 = [0x3D, 0x01, 0x02, 0x00, 0x01, 0x00, 0x13] @ payload_1313 @ [0x51]"

definition rx_realtime_short :: "byte list" where
  "rx_realtime_short =
     [0x3D, 0x01, 0x02, 0x00, 0x01, 0x00, 0x0D] @ cells_13V @ [0x14, 0x05, 0x00, 0x00, 0x50]
       @ [0xAF]"

definition rx_mos_on :: "byte list" where
  "rx_mos_on = [0x3D, 0x01, 0x02, 0x2D, 0x01, 0x00, 0x01, 0x01, 0x70]"

definition rx_mos_off :: "byte list" where
  "rx_mos_off = [0x3D, 0x01, 0x02, 0x2E, 0x01, 0x00, 0x01, 0x00, 0x70]"

text \<open>
  Buses on which only the BMS answers, each answer in one burst followed by a read that
  returns nothing: with the payload that the locator misses, and with 24 cells announced
  and a payload of 13 bytes. And a bus on which nothing answers.
\<close>

definition bms_bus_miss :: serial where
  "bms_bus_miss =
     \<lparr>rx_script = [rx_count_4, [], rx_realtime_1313, [], rx_mos_on, [], rx_mos_off, []],
      tx_log = []\<rparr>"

definition bms_bus_truncated :: serial where
  "bms_bus_truncated =
     \<lparr>rx_script = [rx_count_24, [], rx_realtime_short, [], rx_mos_on, [], rx_mos_off, []],
      tx_log = []\<rparr>"


text \<open>
  A bus on which the MPPT answers the reads of registers 0x304E and 0x304F with 1960 and
  578 and nothing else answers.
\<close>

definition mppt_bus :: serial where
  "mppt_bus = \<lparr>rx_script = [[0x01, 0x04, 0x02, 0x07, 0xA8, 0xBA, 0xBE],
                              [0x01, 0x04, 0x02, 0x02, 0x42, 0x38, 0x61]], tx_log = []\<rparr>"






section \<open>Verification\<close>

subsection \<open>CRC engine\<close>

lemma length_calculate_crc: "length (calculate_crc xs) = 2"
  by (simp add: calculate_crc_def Let_def)

lemma flip_bit_neq: "k < 8 \<Longrightarrow> flip_bit k (w :: byte) \<noteq> w"
proof
  assume k: "k < 8" and eq: "flip_bit k w = w"
  have "bit (flip_bit k w) k = (\<not> bit w k)"
    using k by (simp add: bit_flip_bit_iff)
  with eq show False by simp
qed

lemma verify_crc_append:
  "seq \<noteq> [] \<Longrightarrow> length c = 2 \<Longrightarrow> verify_crc (seq @ c) = (c = calculate_crc seq)"
  by (cases seq) (simp_all add: verify_crc_def)

lemma crc_example: "calculate_crc [0x01, 0x04, 0x02, 0x12, 0x34] = [0xB4, 0x47]"
  by code_simp

text \<open>
  C7, as stated, fails for the empty sequence: its CRC is \<open>[0xFF, 0xFF]\<close>, and the
  two-byte frame made of it alone is shorter than three bytes, which \<^verbatim>\<open>verify_crc\<close>
  rejects before it computes anything.
\<close>

theorem C7_empty_sequence_counterexample:
  "\<not> verify_crc ([] @ calculate_crc [])"
  by (simp add: verify_crc_def length_calculate_crc)

text \<open>
  C7 (amended): for every non-empty byte sequence \<open>seq\<close>, the sequence followed by its
  CRC verifies; flipping any one of the 16 bits of the appended CRC makes the verification
  fail; and every frame shorter than three bytes is rejected.
\<close>

theorem C7_crc_roundtrip:
  assumes "seq \<noteq> []"
  shows "verify_crc (seq @ calculate_crc seq)
       \<and> (\<forall>i k. i < 2 \<and> k < 8 \<longrightarrow>
            \<not> verify_crc (seq @ (calculate_crc seq)[i := flip_bit k (calculate_crc seq ! i)]))
       \<and> (\<forall>frame. length frame < 3 \<longrightarrow> \<not> verify_crc frame)"
proof (intro conjI allI impI)
  show "verify_crc (seq @ calculate_crc seq)"
    using assms by (simp add: verify_crc_append length_calculate_crc)
next
  fix i k :: nat
  assume ik: "i < 2 \<and> k < 8"
  let ?c = "calculate_crc seq"
  have "?c[i := flip_bit k (?c ! i)] ! i \<noteq> ?c ! i"
    using ik by (simp add: length_calculate_crc flip_bit_neq)
  then have "?c[i := flip_bit k (?c ! i)] \<noteq> ?c"
    by metis
  then show "\<not> verify_crc (seq @ ?c[i := flip_bit k (?c ! i)])"
    using assms by (simp add: verify_crc_append length_calculate_crc)
next
  fix frame :: "byte list"
  assume "length frame < 3"
  then show "\<not> verify_crc frame"
    by (simp add: verify_crc_def)
qed

theorem C7_crc_roundtrip_witness:
  "verify_crc [0x01, 0x04, 0x02, 0x12, 0x34, 0xB4, 0x47]
   \<and> \<not> verify_crc [0x01, 0x04, 0x02, 0x12, 0x34, 0xB4, 0x46]
   \<and> \<not> verify_crc [0xB4, 0x47]"
proof -
  have ne: "[0x01, 0x04, 0x02, 0x12, 0x34] \<noteq> ([] :: byte list)" by simp
  note t = C7_crc_roundtrip [OF ne, unfolded crc_example]
  have f: "flip_bit 0 (0x47 :: byte) = 0x46" by code_simp
  from t have a: "verify_crc [0x01, 0x04, 0x02, 0x12, 0x34, 0xB4, 0x47]" by simp
  from t have "1 < (2::nat) \<and> 0 < (8::nat) \<longrightarrow>
      \<not> verify_crc ([0x01, 0x04, 0x02, 0x12, 0x34]
           @ [0xB4, 0x47][1 := flip_bit 0 ([0xB4, 0x47 :: byte] ! 1)])"
    by blast
  then have b: "\<not> verify_crc [0x01, 0x04, 0x02, 0x12, 0x34, 0xB4, 0x46]" by (simp add: f)
  from t have "length [0xB4, 0x47 :: byte] < 3 \<longrightarrow> \<not> verify_crc [0xB4, 0x47]" by blast
  then have c: "\<not> verify_crc [0xB4, 0x47]" by simp
  from a b c show ?thesis by blast
qed

subsection \<open>Standard register reader\<close>

lemma be_pair: "push_bit 8 (uint (hi :: byte)) OR uint (lo :: byte) = 256 * uint hi + uint lo"
proof -
  have "push_bit 8 (uint hi) + uint lo = push_bit 8 (uint hi) OR uint lo"
    by (rule disjunctive_add) (auto simp add: bit_push_bit_iff bit_uint_iff)
  then show ?thesis by (simp add: push_bit_eq_mult)
qed

lemma to_registers_length: "length (to_registers xs) = length xs div 2"
  by (induction xs rule: to_registers.induct) simp_all

lemma to_registers_nth:
  "j < length xs div 2 \<Longrightarrow>
     to_registers xs ! j = 256 * uint (xs ! (2 * j)) + uint (xs ! (2 * j + 1))"
proof (induction xs arbitrary: j rule: to_registers.induct)
  case (1 hi lo rest)
  then show ?case
    by (cases j) (simp_all add: be_pair)
qed simp_all

lemma length_data_bytes:
  "length (data_bytes response) = min (byte_count response) (length response - 3)"
  by (simp add: data_bytes_def)

lemma parse_response_Inr:
  "parse_response response = Inr registers \<Longrightarrow>
     registers = to_registers (data_bytes response) \<and> 5 \<le> length response
     \<and> verify_crc response"
  by (auto simp add: parse_response_def split: if_splits)

text \<open>
  C6, as stated, fails where it says that exactly \<^verbatim>\<open>byteCount\<close> payload bytes are taken:
  the accepted seven-byte response below announces ten data bytes, four bytes are taken
  (the two data bytes and the two CRC bytes), and they are decoded as two registers.
\<close>

theorem C6_overclaim_counterexample:
  "parse_response [0x01, 0x04, 0x0A, 0x12, 0x34, 0x35, 0x85] = Inr [0x1234, 0x3585]
   \<and> byte_count [0x01, 0x04, 0x0A, 0x12, 0x34, 0x35, 0x85] = 10
   \<and> length (data_bytes [0x01, 0x04, 0x0A, 0x12, 0x34, 0x35, 0x85]) = 4"
  by code_simp

text \<open>
  C6 (amended): \<^verbatim>\<open>read_registers\<close> decodes every response it has read in this order:
  an empty response is \<open>NoResponse\<close>; otherwise a response of at least two bytes whose
  second byte has bit 0x80 set is \<open>DeviceException\<close> with the third byte (0 when there is
  none); otherwise a response that fails \<^verbatim>\<open>verify_crc\<close> is \<open>FrameCorrupt\<close>; otherwise a
  response shorter than five bytes is \<open>FrameTooShort\<close>; otherwise \<^verbatim>\<open>byteCount\<close> is the byte
  at offset 2, the data bytes are the bytes from offset 3 on, at most \<^verbatim>\<open>byteCount\<close> of
  them and fewer when the response ends before (the CRC bytes then among them), register
  \<open>j\<close> is \<open>256 * data[2j] + data[2j+1]\<close>, and a last data byte without a partner is
  dropped.
\<close>

theorem C6_decoding_policy:
  "(response = [] \<longrightarrow> parse_response response = Inl NoResponse)
   \<and> (response \<noteq> [] \<and> 2 \<le> length response \<and> (response ! 1) AND 0x80 \<noteq> 0 \<longrightarrow>
        parse_response response
          = Inl (DeviceException (if 2 < length response then uint (response ! 2) else 0)))
   \<and> (response \<noteq> [] \<and> \<not> (2 \<le> length response \<and> (response ! 1) AND 0x80 \<noteq> 0)
        \<and> \<not> verify_crc response \<longrightarrow>
        parse_response response = Inl FrameCorrupt)
   \<and> (response \<noteq> [] \<and> \<not> (2 \<le> length response \<and> (response ! 1) AND 0x80 \<noteq> 0)
        \<and> verify_crc response \<and> length response < 5 \<longrightarrow>
        parse_response response = Inl FrameTooShort)
   \<and> (response \<noteq> [] \<and> \<not> (2 \<le> length response \<and> (response ! 1) AND 0x80 \<noteq> 0)
        \<and> verify_crc response \<and> 5 \<le> length response \<longrightarrow>
        (\<exists>registers. parse_response response = Inr registers
           \<and> byte_count response = unat (response ! 2)
           \<and> data_bytes response
               = take (min (byte_count response) (length response - 3)) (drop 3 response)
           \<and> length registers = length (data_bytes response) div 2
           \<and> (\<forall>j<length registers.
                 registers ! j = 256 * uint (data_bytes response ! (2 * j))
                                 + uint (data_bytes response ! (2 * j + 1)))))"
proof (intro conjI impI)
  assume a: "response \<noteq> [] \<and> \<not> (2 \<le> length response \<and> (response ! 1) AND 0x80 \<noteq> 0)
        \<and> verify_crc response \<and> 5 \<le> length response"
  let ?regs = "to_registers (data_bytes response)"
  have p: "parse_response response = Inr ?regs"
    using a by (simp add: parse_response_def)
  have d: "data_bytes response
             = take (min (byte_count response) (length response - 3)) (drop 3 response)"
    by (simp add: data_bytes_def min_def)
  have n: "\<forall>j<length ?regs. ?regs ! j = 256 * uint (data_bytes response ! (2 * j))
                                 + uint (data_bytes response ! (2 * j + 1))"
    by (simp add: to_registers_length to_registers_nth)
  show "\<exists>registers. parse_response response = Inr registers
           \<and> byte_count response = unat (response ! 2)
           \<and> data_bytes response
               = take (min (byte_count response) (length response - 3)) (drop 3 response)
           \<and> length registers = length (data_bytes response) div 2
           \<and> (\<forall>j<length registers.
                 registers ! j = 256 * uint (data_bytes response ! (2 * j))
                                 + uint (data_bytes response ! (2 * j + 1)))"
    using p d n by (intro exI [of _ ?regs]) (simp add: to_registers_length byte_count_def)
qed (simp_all add: parse_response_def)

lemma crc_more_examples:
  "verify_crc [0x01, 0x04, 0x02, 0x12, 0x34, 0xB4, 0x47]"
  "\<not> verify_crc [0x01, 0x04, 0x02, 0x12, 0x34, 0xB4, 0x46]"
  "verify_crc [0x01, 0x03, 0x03, 0x12, 0x34, 0x56, 0x73, 0x75]"
  by code_simp+


theorem C6_decoding_policy_witness:
  "parse_response [] = Inl NoResponse
   \<and> parse_response [0x01, 0x84, 0x02, 0xC2, 0xC1] = Inl (DeviceException 2)
   \<and> parse_response [0x01, 0x04, 0x02, 0x12, 0x34, 0xB4, 0x46] = Inl FrameCorrupt
   \<and> parse_response [0x01, 0x04, 0x01, 0xE3] = Inl FrameTooShort
   \<and> parse_response [0x01, 0x03, 0x03, 0x12, 0x34, 0x56, 0x73, 0x75] = Inr [0x1234]"
proof -
  have 1: "parse_response [] = Inl NoResponse"
    using C6_decoding_policy [of "[]"] by simp
  have 2: "parse_response [0x01, 0x84, 0x02, 0xC2, 0xC1] = Inl (DeviceException 2)"
    using C6_decoding_policy [of "[0x01, 0x84, 0x02, 0xC2, 0xC1]"] by simp
  have 3: "parse_response [0x01, 0x04, 0x02, 0x12, 0x34, 0xB4, 0x46] = Inl FrameCorrupt"
    using C6_decoding_policy [of "[0x01, 0x04, 0x02, 0x12, 0x34, 0xB4, 0x46]"] crc_more_examples(2)
    by simp
  have v4: "verify_crc [0x01, 0x04, 0x01, 0xE3]" by code_simp
  have 4: "parse_response [0x01, 0x04, 0x01, 0xE3] = Inl FrameTooShort"
    using C6_decoding_policy [of "[0x01, 0x04, 0x01, 0xE3]"] v4
    by simp
  let ?r = "[0x01, 0x03, 0x03, 0x12, 0x34, 0x56, 0x73, 0x75] :: byte list"
  have d5: "data_bytes ?r = [0x12, 0x34, 0x56]" by (simp add: data_bytes_def byte_count_def)
  obtain registers where p: "parse_response ?r = Inr registers"
    and l: "length registers = length (data_bytes ?r) div 2"
    and n: "\<forall>j<length registers. registers ! j = 256 * uint (data_bytes ?r ! (2 * j))
                                 + uint (data_bytes ?r ! (2 * j + 1))"
    using C6_decoding_policy [of ?r] crc_more_examples(3) by auto
  from l have l1: "length registers = 1" by (simp add: d5)
  with n have "registers ! 0 = 0x1234" by (simp add: d5)
  with l1 have "registers = [0x1234]" by (cases registers) simp_all
  with p have 5: "parse_response ?r = Inr [0x1234]" by simp
  from 1 2 3 4 5 show ?thesis by blast
qed

text \<open>
  C10: the number of registers of an accepted response is
  \<open>min byteCount (len - 3) div 2\<close>, whatever count was requested; a request for two
  registers can return one; and a response whose \<^verbatim>\<open>byteCount\<close> exceeds its payload is
  accepted with a last register made of its two CRC bytes.
\<close>

theorem C10_byte_count_unchecked:
  "(\<forall>response registers. parse_response response = Inr registers \<longrightarrow>
       length registers = min (byte_count response) (length response - 3) div 2)
   \<and> (\<exists>s count registers.
         fst (read_registers s 0x01 0x0000 count 0x03) = Inr registers
         \<and> length registers < count)
   \<and> (\<exists>response registers.
         parse_response response = Inr registers
         \<and> length response - 5 < byte_count response
         \<and> last registers = 256 * uint (response ! (length response - 2))
                             + uint (response ! (length response - 1)))"
proof (intro conjI allI impI)
  fix response registers
  assume "parse_response response = Inr registers"
  then have "registers = to_registers (data_bytes response)"
    by (simp add: parse_response_Inr)
  then show "length registers = min (byte_count response) (length response - 3) div 2"
    by (simp add: to_registers_length data_bytes_def)
next
  let ?s = "\<lparr>rx_script = [[0x01, 0x03, 0x02, 0x12, 0x34, 0xB5, 0x33]], tx_log = []\<rparr>"
  have "fst (read_registers ?s 0x01 0x0000 2 0x03) = Inr [0x1234]"
    by code_simp
  then have "fst (read_registers ?s 0x01 0x0000 2 0x03) = Inr [0x1234]
             \<and> length [0x1234 :: int] < 2"
    by simp
  then show "\<exists>s count registers.
         fst (read_registers s 0x01 0x0000 count 0x03) = Inr registers
         \<and> length registers < count"
    by blast
next
  let ?r = "[0x01, 0x04, 0x0A, 0x12, 0x34, 0x35, 0x85] :: byte list"
  have "parse_response ?r = Inr [0x1234, 0x3585]"
    by code_simp
  moreover have "length ?r - 5 < byte_count ?r"
    by (simp add: byte_count_def)
  moreover have "last [0x1234, 0x3585 :: int]
      = 256 * uint (?r ! (length ?r - 2)) + uint (?r ! (length ?r - 1))"
    by simp
  ultimately show "\<exists>response registers.
         parse_response response = Inr registers
         \<and> length response - 5 < byte_count response
         \<and> last registers = 256 * uint (response ! (length response - 2))
                             + uint (response ! (length response - 1))"
    by blast
qed

theorem C10_byte_count_unchecked_witness:
  "parse_response [0x01, 0x04, 0x0A, 0x12, 0x34, 0x35, 0x85] = Inr [0x1234, 0x3585]
   \<and> length [0x1234, 0x3585 :: int]
       = min (byte_count [0x01, 0x04, 0x0A, 0x12, 0x34, 0x35, 0x85])
             (length [0x01, 0x04, 0x0A, 0x12, 0x34, 0x35, 0x85 :: byte] - 3) div 2"
proof -
  have p: "parse_response [0x01, 0x04, 0x0A, 0x12, 0x34, 0x35, 0x85] = Inr [0x1234, 0x3585]"
    by code_simp
  with C10_byte_count_unchecked show ?thesis
    by blast
qed

subsection \<open>Python floats\<close>

lemma rhe_err: "\<bar>of_int (rhe q) - q\<bar> \<le> 1 / 2"
proof -
  define f where "f = \<lfloor>q\<rfloor>"
  define r where "r = q - of_int f"
  have r: "0 \<le> r" "r < 1" unfolding r_def f_def by linarith+
  have q: "q = of_int f + r" by (simp add: r_def)
  have "rhe q = (if r < 1 / 2 then f else if 1 / 2 < r then f + 1 else if even f then f else f + 1)"
    by (simp add: rhe_def Let_def f_def r_def)
  then show ?thesis
    using r unfolding q by (auto split: if_splits)
qed

lemma rhe_near: 
  assumes "\<bar>x - of_int n\<bar> < 1 / 2" shows "rhe x = n"
proof -
  have "\<bar>(of_int (rhe x) :: rat) - of_int n\<bar> < 1"
    using rhe_err [of x] assms by linarith
  then have "\<bar>(of_int (rhe x - n) :: rat)\<bar> < 1" by simp
  then have "\<bar>rhe x - n\<bar> < 1"
    by (simp only: of_int_abs [symmetric] of_int_less_1_iff)
  then show ?thesis by simp
qed

lemma pow2_pos: "0 < pow2 e"
  by (simp add: pow2_def)

lemma pow2_powi: "pow2 e = 2 powi e"
  by (simp add: pow2_def power_int_def inverse_eq_divide power_one_over)

lemma pow2_add: "pow2 (a + b) = pow2 a * pow2 b"
  by (simp add: pow2_powi power_int_add)

lemma pow2_diff: "pow2 (a - b) = pow2 a / pow2 b"
  by (simp add: pow2_powi power_int_diff)

lemma bitlen_ge1: "0 < a \<Longrightarrow> 1 \<le> bitlen a"
  by (auto simp: bitlen_alt_def)

lemma bitlen_lower: 
  assumes "0 < a" shows "pow2 (bitlen a - 1) \<le> of_int a"
proof -
  have "2 ^ nat (bitlen a - 1) \<le> a" using assms bitlen_bounds by blast
  then have "(of_int (2 ^ nat (bitlen a - 1)) :: rat) \<le> of_int a"
    by (rule of_int_le_iff [THEN iffD2])
  then show ?thesis using bitlen_ge1 [OF assms] by (simp add: pow2_def)
qed

lemma bitlen_upper: 
  assumes "0 < b" shows "of_int b < pow2 (bitlen b)"
proof -
  have "b < 2 ^ nat (bitlen b)" using assms bitlen_bounds by blast
  then have "(of_int b :: rat) < of_int (2 ^ nat (bitlen b))"
    by (rule of_int_less_iff [THEN iffD2])
  then show ?thesis using bitlen_nonneg [of b] by (simp add: pow2_def)
qed

lemma expo_le:
  assumes "q \<noteq> 0" shows "pow2 (expo q) \<le> \<bar>q\<bar>"
proof -
  obtain a b where ab: "quotient_of \<bar>q\<bar> = (a, b)" by (cases "quotient_of \<bar>q\<bar>")
  have b: "0 < b" using ab quotient_of_denom_pos by blast
  have q: "\<bar>q\<bar> = of_int a / of_int b" using ab by (rule quotient_of_div)
  have "0 < \<bar>q\<bar>" using assms by simp
  then have a: "0 < a" using q b by (simp add: zero_less_divide_iff)
  define k where "k = bitlen a - bitlen b"
  have e: "expo q = (if pow2 k \<le> \<bar>q\<bar> then k else k - 1)"
    by (simp add: expo_def ab k_def)
  have "pow2 (k - 1) = pow2 (bitlen a - 1) / pow2 (bitlen b)"
    by (simp add: k_def pow2_diff [symmetric] algebra_simps)
  also have "\<dots> \<le> of_int a / pow2 (bitlen b)"
    using bitlen_lower [OF a] pow2_pos [of "bitlen b"] by (simp add: divide_right_mono)
  also have "\<dots> \<le> of_int a / of_int b"
    using bitlen_upper [OF b] a b by (simp add: frac_le)
  finally have "pow2 (k - 1) \<le> \<bar>q\<bar>" by (simp add: q)
  then show ?thesis by (simp add: e)
qed

text \<open>The relative error of one rounding is at most \<open>2 ^ -53\<close>.\<close>

definition ulp53 :: rat where
  "ulp53 = 1 / 2 ^ 53"

lemma fl_err: "\<bar>fl q - q\<bar> \<le> \<bar>q\<bar> * ulp53"
proof (cases "q = 0")
  case True
  then show ?thesis by (simp add: fl_def)
next
  case False
  define u where "u = pow2 (expo q - 52)"
  have u: "0 < u" by (simp add: u_def pow2_pos)
  have f: "fl q = of_int (rhe (q / u)) * u"
    using False by (simp add: fl_def u_def Let_def)
  have "fl q - q = (of_int (rhe (q / u)) - q / u) * u"
    using u by (simp add: f left_diff_distrib)
  then have "\<bar>fl q - q\<bar> = \<bar>of_int (rhe (q / u)) - q / u\<bar> * u"
    using u by (simp add: abs_mult)
  also have "\<dots> \<le> 1 / 2 * u"
    using rhe_err [of "q / u"] u by (simp add: mult_right_mono)
  also have "\<dots> = pow2 (expo q) * ulp53"
  proof -
    have "pow2 52 = 2 ^ 52" by (simp add: pow2_def)
    then show ?thesis by (simp add: u_def pow2_diff ulp53_def)
  qed
  also have "\<dots> \<le> \<bar>q\<bar> * ulp53"
    using expo_le [OF False] by (simp add: mult_right_mono ulp53_def)
  finally show ?thesis .
qed

lemma round_nd_truediv:
  assumes "\<bar>n\<bar> < 2 ^ 52"
  shows "py_round_nd (py_truediv n (10 ^ nd)) nd = py_truediv n (10 ^ nd)"
proof -
  define D :: rat where "D = 10 ^ nd"
  have D: "0 < D" by (simp add: D_def)
  define x where "x = fl (of_int n / D)"
  have e: "\<bar>x - of_int n / D\<bar> \<le> \<bar>of_int n / D\<bar> * ulp53"
    unfolding x_def by (rule fl_err)
  have "x * D - of_int n = (x - of_int n / D) * D"
    using D by (simp add: left_diff_distrib)
  then have "\<bar>x * D - of_int n\<bar> = \<bar>x - of_int n / D\<bar> * D"
    using D by (simp add: abs_mult)
  also have "\<dots> \<le> \<bar>of_int n / D\<bar> * ulp53 * D"
    by (rule mult_right_mono [OF e less_imp_le [OF D]])
  also have "\<dots> = \<bar>of_int n\<bar> * ulp53"
    using D by (simp add: abs_divide)
  finally have "\<bar>x * D - of_int n\<bar> \<le> \<bar>of_int n\<bar> * ulp53" .
  moreover have "\<bar>(of_int n :: rat)\<bar> < 2 ^ 52"
    using assms by (metis of_int_abs of_int_less_numeral_power_cancel_iff)
  ultimately have "\<bar>x * D - of_int n\<bar> < 1 / 2"
    by (simp add: ulp53_def)
  then have "rhe (x * D) = n" by (rule rhe_near)
  then show ?thesis
    by (simp add: py_round_nd_def py_truediv_def x_def D_def)
qed

lemma round2_div100: "\<bar>n\<bar> < 2 ^ 52 \<Longrightarrow> py_round_nd (py_truediv n 100) 2 = py_truediv n 100"
  using round_nd_truediv [of n 2] by simp

lemma round3_div1000: "\<bar>n\<bar> < 2 ^ 52 \<Longrightarrow> py_round_nd (py_truediv n 1000) 3 = py_truediv n 1000"
  using round_nd_truediv [of n 3] by simp

subsection \<open>Readings and the MPPT decoder\<close>

lemma map_of_dict_set: "map_of (dict_set data k v) = (map_of data)(k \<mapsto> v)"
  by (induction data) (auto simp add: fun_eq_iff)

lemma to_registers_range: "r \<in> set (to_registers xs) \<Longrightarrow> 0 \<le> r \<and> r < 65536"
proof (induction xs rule: to_registers.induct)
  case (1 hi lo rest)
  have "0 \<le> uint hi" "uint hi < 256" "0 \<le> uint lo" "uint lo < 256"
    using uint_lt2p [of hi] uint_lt2p [of lo] by simp_all
  then have "0 \<le> 256 * uint hi + uint lo \<and> 256 * uint hi + uint lo < 65536" by linarith
  with 1 show ?case by (auto simp add: be_pair)
qed simp_all

lemma parse_response_range:
  "parse_response response = Inr registers \<Longrightarrow> r \<in> set registers \<Longrightarrow> 0 \<le> r \<and> r < 65536"
  using parse_response_Inr to_registers_range by blast

lemma read_registers_range:
  assumes "read_registers s a b c d = (res, s')" "truthy res"
  shows "0 \<le> regs res ! 0 \<and> regs res ! 0 < 65536"
proof -
  obtain r rs where r: "res = Inr (r # rs)" using assms(2) by (cases res rule: truthy.cases) simp_all
  have "parse_response (fst (serial_read (serial_write s (build_request a b (int c) d)) (3 + c * 2 + 2))) = res"
    using assms(1) by (simp add: read_registers_def Let_def split: prod.splits)
  then show ?thesis using parse_response_range [of _ "r # rs" r] r by simp
qed

text \<open>Readings have one entry for a key.\<close>

definition keys_distinct :: "dict \<Rightarrow> bool" where
  "keys_distinct data = distinct (map fst data)"

lemma set_fst_dict_set: "fst ` set (dict_set data k v) = insert k (fst ` set data)"
  by (simp add: map_of_dict_set flip: dom_map_of_conv_image_fst)

lemma keys_distinct_Nil: "keys_distinct []"
  by (simp add: keys_distinct_def)

lemma keys_distinct_dict_set: "keys_distinct data \<Longrightarrow> keys_distinct (dict_set data k v)"
  unfolding keys_distinct_def
proof (induction data)
  case Nil
  then show ?case by simp
next
  case (Cons a data)
  then show ?case
    by (cases a) (auto simp add: set_fst_dict_set)
qed

lemma map_add_upd_left:
  "map_of data k = None \<Longrightarrow> m(k \<mapsto> v) ++ map_of data = m ++ (map_of data)(k \<mapsto> v)"
  by (auto simp add: fun_eq_iff map_add_def split: option.splits)

lemma map_of_fold_dict_set:
  "keys_distinct data \<Longrightarrow>
     map_of (fold (\<lambda>(k, v) acc. dict_set acc k v) data results) = map_of results ++ map_of data"
proof (induction data arbitrary: results)
  case Nil
  then show ?case by simp
next
  case (Cons a data)
  obtain k v where a: "a = (k, v)" by (cases a)
  have d: "keys_distinct data" and k: "map_of data k = None"
    using Cons.prems by (simp_all add: keys_distinct_def a map_of_eq_None_iff)
  have "fold (\<lambda>(k, v) acc. dict_set acc k v) (a # data) results
          = fold (\<lambda>(k, v) acc. dict_set acc k v) data (dict_set results k v)"
    by (simp add: a)
  then have "map_of (fold (\<lambda>(k, v) acc. dict_set acc k v) (a # data) results)
          = map_of (dict_set results k v) ++ map_of data"
    by (simp only: Cons.IH [OF d])
  also have "\<dots> = (map_of results)(k \<mapsto> v) ++ map_of data"
    by (simp only: map_of_dict_set)
  also have "\<dots> = map_of results ++ (map_of data)(k \<mapsto> v)"
    by (rule map_add_upd_left [OF k])
  also have "(map_of data)(k \<mapsto> v) = map_of (a # data)"
    by (simp add: a)
  finally show ?case .
qed

lemma map_of_dict_update:
  "keys_distinct data \<Longrightarrow> map_of (dict_update results data) = map_of results ++ map_of data"
  by (simp add: dict_update_def map_of_fold_dict_set)

lemma keys_distinct_dict_update:
  "keys_distinct results \<Longrightarrow> keys_distinct (dict_update results data)"
  unfolding dict_update_def
  by (induction data arbitrary: results) (auto simp add: keys_distinct_dict_set)

text \<open>A store under a condition, to name the intermediate readings in the proofs.\<close>

definition store_if :: "bool \<Rightarrow> dict \<Rightarrow> string \<Rightarrow> pyval \<Rightarrow> dict" where
  "store_if c data k v = (if c then dict_set data k v else data)"

lemma map_of_store_if:
  "map_of (store_if c d k v) k' = (if k' = k then (if c then Some v else map_of d k') else map_of d k')"
  by (simp add: store_if_def map_of_dict_set)

lemma keys_distinct_store_if: "keys_distinct data \<Longrightarrow> keys_distinct (store_if c data k v)"
  by (simp add: store_if_def keys_distinct_dict_set)

lemma nonempty_or_none_data:
  "(case nonempty_or_none data of None \<Rightarrow> [] | Some d \<Rightarrow> d) = data"
  by (simp add: nonempty_or_none_def)

lemma read_mppt_data_lookup:
  assumes r1: "read_registers s 0x01 0x304E 1 0x04 = (pv_voltage_reg, s1)"
      and r2: "read_registers s1 0x01 0x304F 1 0x04 = (pv_current_reg, s2)"
      and r3: "read_registers s2 0x01 0x3045 1 0x04 = (battery_soc_reg, s3)"
      and r4: "read_registers s3 0x01 0x3046 1 0x04 = (battery_voltage_reg, s4)"
      and r5: "read_registers s4 0x01 0x3047 1 0x04 = (battery_current_reg, s5)"
      and rd: "read_mppt_data s = (reading, s')"
      and d: "data = (case reading of None \<Rightarrow> [] | Some d \<Rightarrow> d)"
  shows "s' = s5"
    and "map_of data ''mppt_pv_voltage''
          = (if truthy pv_voltage_reg
             then Some (VFloat (py_round_nd (py_truediv (regs pv_voltage_reg ! 0) 100) 2)) else None)"
    and "map_of data ''mppt_pv_current''
          = (if truthy pv_current_reg
             then Some (VFloat (py_round_nd (py_truediv (regs pv_current_reg ! 0) 100) 2)) else None)"
    and "map_of data ''mppt_battery_soc''
          = (if truthy battery_soc_reg then Some (VInt (regs battery_soc_reg ! 0)) else None)"
    and "map_of data ''mppt_battery_voltage''
          = (if truthy battery_voltage_reg
             then Some (VFloat (py_round_nd (py_truediv (regs battery_voltage_reg ! 0) 100) 2)) else None)"
    and "map_of data ''mppt_battery_current''
          = (if truthy battery_current_reg
             then Some (VFloat (py_round_nd (py_truediv 
                    (if regs battery_current_reg ! 0 > 32767 then regs battery_current_reg ! 0 - 65536
                     else regs battery_current_reg ! 0) 100) 2)) else None)"
    and "map_of data ''mppt_pv_power''
          = (if truthy pv_voltage_reg \<and> truthy pv_current_reg
             then Some (VFloat (py_round_nd (py_mul
                    (py_round_nd (py_truediv (regs pv_voltage_reg ! 0) 100) 2)
                    (py_round_nd (py_truediv (regs pv_current_reg ! 0) 100) 2)) 2)) else None)"
    and "map_of data ''mppt_battery_power''
          = (if truthy battery_voltage_reg \<and> truthy battery_current_reg
             then Some (VFloat (py_round_nd (py_mul
                    (py_round_nd (py_truediv (regs battery_voltage_reg ! 0) 100) 2)
                    (py_round_nd (py_truediv 
                    (if regs battery_current_reg ! 0 > 32767 then regs battery_current_reg ! 0 - 65536
                     else regs battery_current_reg ! 0) 100) 2)) 2)) else None)"
    and "keys_distinct data"
proof -
  define v1 where "v1 = py_round_nd (py_truediv (regs pv_voltage_reg ! 0) 100) 2"
  define v2 where "v2 = py_round_nd (py_truediv (regs pv_current_reg ! 0) 100) 2"
  define v4 where "v4 = py_round_nd (py_truediv (regs battery_voltage_reg ! 0) 100) 2"
  define v5 where "v5 = py_round_nd (py_truediv
                    (if regs battery_current_reg ! 0 > 32767 then regs battery_current_reg ! 0 - 65536
                     else regs battery_current_reg ! 0) 100) 2"
  define d1 where "d1 = store_if (truthy pv_voltage_reg) [] ''mppt_pv_voltage'' (VFloat v1)"
  define d2 where "d2 = store_if (truthy pv_current_reg) d1 ''mppt_pv_current'' (VFloat v2)"
  define d3 where "d3 = store_if (truthy battery_soc_reg) d2 ''mppt_battery_soc''
                          (VInt (regs battery_soc_reg ! 0))"
  define d4 where "d4 = store_if (truthy battery_voltage_reg) d3 ''mppt_battery_voltage'' (VFloat v4)"
  define d5 where "d5 = store_if (truthy battery_current_reg) d4 ''mppt_battery_current'' (VFloat v5)"
  define d6 where "d6 = store_if (dict_has d5 ''mppt_pv_voltage'' \<and> dict_has d5 ''mppt_pv_current'')
                   d5 ''mppt_pv_power''
                   (VFloat (py_round_nd (py_mul (float_at d5 ''mppt_pv_voltage'')
                                                (float_at d5 ''mppt_pv_current'')) 2))"
  define d7 where "d7 = store_if (dict_has d6 ''mppt_battery_voltage''
                           \<and> dict_has d6 ''mppt_battery_current'')
                   d6 ''mppt_battery_power''
                   (VFloat (py_round_nd (py_mul (float_at d6 ''mppt_battery_voltage'')
                                                (float_at d6 ''mppt_battery_current'')) 2))"
  have "read_mppt_data s = (nonempty_or_none d7, s5)"
    unfolding read_mppt_data_def Let_def r1 r2 r3 r4 r5 prod.case
      d7_def d6_def d5_def d4_def d3_def d2_def d1_def v1_def v2_def v4_def v5_def store_if_def ..
  with rd have rs: "reading = nonempty_or_none d7" "s' = s5" by simp_all
  show "s' = s5" by fact
  have dd: "data = d7" by (simp add: d rs nonempty_or_none_data)
  show "keys_distinct data"
    unfolding dd d7_def d6_def d5_def d4_def d3_def d2_def d1_def
    by (intro keys_distinct_store_if keys_distinct_Nil)
  have m5: "map_of d5 ''mppt_pv_voltage'' = (if truthy pv_voltage_reg then Some (VFloat v1) else None)"
    "map_of d5 ''mppt_pv_current'' = (if truthy pv_current_reg then Some (VFloat v2) else None)"
    "map_of d5 ''mppt_battery_soc''
       = (if truthy battery_soc_reg then Some (VInt (regs battery_soc_reg ! 0)) else None)"
    "map_of d5 ''mppt_battery_voltage'' = (if truthy battery_voltage_reg then Some (VFloat v4) else None)"
    "map_of d5 ''mppt_battery_current'' = (if truthy battery_current_reg then Some (VFloat v5) else None)"
    "map_of d5 ''mppt_pv_power'' = None" "map_of d5 ''mppt_battery_power'' = None"
    by (simp_all add: d5_def d4_def d3_def d2_def d1_def map_of_store_if)
  have m6: "map_of d6 k = (if k = ''mppt_pv_power''
      then (if truthy pv_voltage_reg \<and> truthy pv_current_reg
            then Some (VFloat (py_round_nd (py_mul v1 v2) 2)) else None)
      else map_of d5 k)" for k
    by (simp add: d6_def map_of_store_if dict_has_def m5)
  have m7: "map_of d7 k = (if k = ''mppt_battery_power''
      then (if truthy battery_voltage_reg \<and> truthy battery_current_reg
            then Some (VFloat (py_round_nd (py_mul v4 v5) 2)) else None)
      else map_of d6 k)" for k
    by (simp add: d7_def map_of_store_if dict_has_def m6 m5)
  show "map_of data ''mppt_pv_voltage''
          = (if truthy pv_voltage_reg then Some (VFloat v1) else None)"
    by (simp add: dd m7 m6 m5)
  show "map_of data ''mppt_pv_current''
          = (if truthy pv_current_reg then Some (VFloat v2) else None)"
    by (simp add: dd m7 m6 m5)
  show "map_of data ''mppt_battery_soc''
          = (if truthy battery_soc_reg then Some (VInt (regs battery_soc_reg ! 0)) else None)"
    by (simp add: dd m7 m6 m5)
  show "map_of data ''mppt_battery_voltage''
          = (if truthy battery_voltage_reg then Some (VFloat v4) else None)"
    by (simp add: dd m7 m6 m5)
  show "map_of data ''mppt_battery_current''
          = (if truthy battery_current_reg then Some (VFloat v5) else None)"
    by (simp add: dd m7 m6 m5)
  show "map_of data ''mppt_pv_power''
          = (if truthy pv_voltage_reg \<and> truthy pv_current_reg
             then Some (VFloat (py_round_nd (py_mul v1 v2) 2)) else None)"
    by (simp add: dd m7 m6 m5)
  show "map_of data ''mppt_battery_power''
          = (if truthy battery_voltage_reg \<and> truthy battery_current_reg
             then Some (VFloat (py_round_nd (py_mul v4 v5) 2)) else None)"
    by (simp add: dd m7 m6 m5)
qed

lemma truediv_reg:
  assumes "read_registers s a b c d = (res, s')" "truthy res"
  shows "py_round_nd (py_truediv (regs res ! 0) 100) 2 = py_truediv (regs res ! 0) 100"
    and "py_round_nd (py_truediv (if regs res ! 0 > 32767 then regs res ! 0 - 65536 else regs res ! 0) 100) 2
         = py_truediv (if regs res ! 0 > 32767 then regs res ! 0 - 65536 else regs res ! 0) 100"
proof -
  have r: "0 \<le> regs res ! 0 \<and> regs res ! 0 < 65536"
    using assms by (rule read_registers_range)
  then show "py_round_nd (py_truediv (regs res ! 0) 100) 2 = py_truediv (regs res ! 0) 100"
    by (intro round2_div100) simp
  from r show "py_round_nd (py_truediv (if regs res ! 0 > 32767 then regs res ! 0 - 65536 else regs res ! 0) 100) 2
         = py_truediv (if regs res ! 0 > 32767 then regs res ! 0 - 65536 else regs res ! 0) 100"
    by (intro round2_div100) (simp split: if_splits)
qed

lemma mppt_example:
  "py_truediv 1960 100 = fl (1960 / 100)"
  "py_truediv 578 100 = fl (578 / 100)"
  "py_round_nd (py_mul (py_truediv 1960 100) (py_truediv 578 100)) 2 = fl (11329 / 100)"
  by code_simp+

text \<open>
  C8: in the MPPT reading, each of PV voltage, PV current and battery voltage is its
  register divided by 100 (rounding to two decimals changes nothing), the state of charge
  is the raw register, the battery current is the register read as a signed 16-bit number
  (65536 subtracted above 32767) divided by 100, and each power is the product of voltage
  and current rounded to two decimals; a key is absent when its read gave nothing. Registers
  1960 and 578 give the floats 19.60, 5.78 and 113.29. A float written in decimal is
  \<open>fl\<close> of that decimal.
\<close>

theorem C8_mppt_decoding:
  assumes r1: "read_registers s 0x01 0x304E 1 0x04 = (pv_voltage_reg, s1)"
      and r2: "read_registers s1 0x01 0x304F 1 0x04 = (pv_current_reg, s2)"
      and r3: "read_registers s2 0x01 0x3045 1 0x04 = (battery_soc_reg, s3)"
      and r4: "read_registers s3 0x01 0x3046 1 0x04 = (battery_voltage_reg, s4)"
      and r5: "read_registers s4 0x01 0x3047 1 0x04 = (battery_current_reg, s5)"
      and rd: "read_mppt_data s = (reading, s')"
      and d: "data = (case reading of None \<Rightarrow> [] | Some d \<Rightarrow> d)"
  shows "map_of data ''mppt_pv_voltage''
           = (if truthy pv_voltage_reg
              then Some (VFloat (py_truediv (regs pv_voltage_reg ! 0) 100)) else None)
       \<and> map_of data ''mppt_pv_current''
           = (if truthy pv_current_reg
              then Some (VFloat (py_truediv (regs pv_current_reg ! 0) 100)) else None)
       \<and> map_of data ''mppt_battery_soc''
           = (if truthy battery_soc_reg then Some (VInt (regs battery_soc_reg ! 0)) else None)
       \<and> map_of data ''mppt_battery_voltage''
           = (if truthy battery_voltage_reg
              then Some (VFloat (py_truediv (regs battery_voltage_reg ! 0) 100)) else None)
       \<and> map_of data ''mppt_battery_current''
           = (if truthy battery_current_reg
              then Some (VFloat (py_truediv
                     (if regs battery_current_reg ! 0 > 32767
                      then regs battery_current_reg ! 0 - 65536
                      else regs battery_current_reg ! 0) 100))
              else None)
       \<and> map_of data ''mppt_pv_power''
           = (if truthy pv_voltage_reg \<and> truthy pv_current_reg
              then Some (VFloat (py_round_nd
                     (py_mul (py_truediv (regs pv_voltage_reg ! 0) 100)
                             (py_truediv (regs pv_current_reg ! 0) 100)) 2))
              else None)
       \<and> map_of data ''mppt_battery_power''
           = (if truthy battery_voltage_reg \<and> truthy battery_current_reg
              then Some (VFloat (py_round_nd
                     (py_mul (py_truediv (regs battery_voltage_reg ! 0) 100)
                             (py_truediv
                                (if regs battery_current_reg ! 0 > 32767
                                 then regs battery_current_reg ! 0 - 65536
                                 else regs battery_current_reg ! 0) 100)) 2))
              else None)
       \<and> (truthy pv_voltage_reg \<and> regs pv_voltage_reg ! 0 = 1960
            \<and> truthy pv_current_reg \<and> regs pv_current_reg ! 0 = 578 \<longrightarrow>
            map_of data ''mppt_pv_voltage'' = Some (VFloat (fl (1960 / 100)))
            \<and> map_of data ''mppt_pv_current'' = Some (VFloat (fl (578 / 100)))
            \<and> map_of data ''mppt_pv_power'' = Some (VFloat (fl (11329 / 100))))"
proof -
  note aux = read_mppt_data_lookup [OF r1 r2 r3 r4 r5 rd d]
  note t1 = truediv_reg [OF r1] and t2 = truediv_reg [OF r2]
    and t4 = truediv_reg [OF r4] and t5 = truediv_reg [OF r5]
  have v: "map_of data ''mppt_pv_voltage''
           = (if truthy pv_voltage_reg
              then Some (VFloat (py_truediv (regs pv_voltage_reg ! 0) 100)) else None)"
    using aux(2) t1(1) by simp
  have i: "map_of data ''mppt_pv_current''
           = (if truthy pv_current_reg
              then Some (VFloat (py_truediv (regs pv_current_reg ! 0) 100)) else None)"
    using aux(3) t2(1) by simp
  have soc: "map_of data ''mppt_battery_soc''
           = (if truthy battery_soc_reg then Some (VInt (regs battery_soc_reg ! 0)) else None)"
    by (rule aux(4))
  have bv: "map_of data ''mppt_battery_voltage''
           = (if truthy battery_voltage_reg
              then Some (VFloat (py_truediv (regs battery_voltage_reg ! 0) 100)) else None)"
    using aux(5) t4(1) by simp
  have bi: "map_of data ''mppt_battery_current''
           = (if truthy battery_current_reg
              then Some (VFloat (py_truediv
                     (if regs battery_current_reg ! 0 > 32767
                      then regs battery_current_reg ! 0 - 65536
                      else regs battery_current_reg ! 0) 100))
              else None)"
    using aux(6) t5(2) by simp
  have p: "map_of data ''mppt_pv_power''
           = (if truthy pv_voltage_reg \<and> truthy pv_current_reg
              then Some (VFloat (py_round_nd
                     (py_mul (py_truediv (regs pv_voltage_reg ! 0) 100)
                             (py_truediv (regs pv_current_reg ! 0) 100)) 2))
              else None)"
    using aux(7) t1(1) t2(1) by simp
  have bp: "map_of data ''mppt_battery_power''
           = (if truthy battery_voltage_reg \<and> truthy battery_current_reg
              then Some (VFloat (py_round_nd
                     (py_mul (py_truediv (regs battery_voltage_reg ! 0) 100)
                             (py_truediv
                                (if regs battery_current_reg ! 0 > 32767
                                 then regs battery_current_reg ! 0 - 65536
                                 else regs battery_current_reg ! 0) 100)) 2))
              else None)"
    using aux(8) t4(1) t5(2) by simp
  have ex: "truthy pv_voltage_reg \<and> regs pv_voltage_reg ! 0 = 1960
            \<and> truthy pv_current_reg \<and> regs pv_current_reg ! 0 = 578 \<longrightarrow>
            map_of data ''mppt_pv_voltage'' = Some (VFloat (fl (1960 / 100)))
            \<and> map_of data ''mppt_pv_current'' = Some (VFloat (fl (578 / 100)))
            \<and> map_of data ''mppt_pv_power'' = Some (VFloat (fl (11329 / 100)))"
    using v i p mppt_example by simp
  from v i soc bv bi p bp ex show ?thesis by (intro conjI)
qed

lemma mppt_bus_reads:
  "read_registers mppt_bus 0x01 0x304E 1 0x04
     = (Inr [1960], \<lparr>rx_script = [[0x01, 0x04, 0x02, 0x02, 0x42, 0x38, 0x61]],
                      tx_log = [[0x01, 0x04, 0x30, 0x4E, 0x00, 0x01, 0x5E, 0xDD]]\<rparr>)"
  "read_registers \<lparr>rx_script = [[0x01, 0x04, 0x02, 0x02, 0x42, 0x38, 0x61]],
                     tx_log = [[0x01, 0x04, 0x30, 0x4E, 0x00, 0x01, 0x5E, 0xDD]]\<rparr>
       0x01 0x304F 1 0x04
     = (Inr [578], \<lparr>rx_script = [],
                     tx_log = [[0x01, 0x04, 0x30, 0x4E, 0x00, 0x01, 0x5E, 0xDD],
                               [0x01, 0x04, 0x30, 0x4F, 0x00, 0x01, 0x0F, 0x1D]]\<rparr>)"
  by code_simp+

theorem C8_mppt_decoding_witness:
  "map_of (case fst (read_mppt_data mppt_bus) of None \<Rightarrow> [] | Some d \<Rightarrow> d) ''mppt_pv_voltage''
     = Some (VFloat (fl (1960 / 100)))
   \<and> map_of (case fst (read_mppt_data mppt_bus) of None \<Rightarrow> [] | Some d \<Rightarrow> d) ''mppt_pv_current''
     = Some (VFloat (fl (578 / 100)))
   \<and> map_of (case fst (read_mppt_data mppt_bus) of None \<Rightarrow> [] | Some d \<Rightarrow> d) ''mppt_pv_power''
     = Some (VFloat (fl (11329 / 100)))"
proof -
  let ?s2 = "\<lparr>rx_script = [],
                tx_log = [[0x01, 0x04, 0x30, 0x4E, 0x00, 0x01, 0x5E, 0xDD],
                          [0x01, 0x04, 0x30, 0x4F, 0x00, 0x01, 0x0F, 0x1D :: byte]]\<rparr>"
  obtain r3 s3 where r3: "read_registers ?s2 0x01 0x3045 1 0x04 = (r3, s3)"
    by (cases "read_registers ?s2 0x01 0x3045 1 0x04")
  obtain r4 s4 where r4: "read_registers s3 0x01 0x3046 1 0x04 = (r4, s4)"
    by (cases "read_registers s3 0x01 0x3046 1 0x04")
  obtain r5 s5 where r5: "read_registers s4 0x01 0x3047 1 0x04 = (r5, s5)"
    by (cases "read_registers s4 0x01 0x3047 1 0x04")
  have rd: "read_mppt_data mppt_bus = (fst (read_mppt_data mppt_bus), snd (read_mppt_data mppt_bus))"
    by simp
  note t = C8_mppt_decoding [OF mppt_bus_reads(1) mppt_bus_reads(2) r3 r4 r5 rd refl]
  have "truthy (Inr [1960]) \<and> regs (Inr [1960]) ! 0 = 1960
        \<and> truthy (Inr [578]) \<and> regs (Inr [578]) ! 0 = 578"
    by simp
  with t show ?thesis by blast
qed

subsection \<open>BMS field locator\<close>


lemma find_upt_Some:
  "find P [a..<b] = Some p \<longleftrightarrow> a \<le> p \<and> p < b \<and> P p \<and> (\<forall>j. a \<le> j \<and> j < p \<longrightarrow> \<not> P j)"
proof
  assume "find P [a..<b] = Some p"
  then obtain i where i: "i < length [a..<b]" "P ([a..<b] ! i)" "p = [a..<b] ! i"
      "\<forall>j<i. \<not> P ([a..<b] ! j)"
    unfolding find_Some_iff by blast
  then have p: "p = a + i" "i < b - a" by simp_all
  have "\<not> P j" if "a \<le> j \<and> j < p" for j
  proof -
    have "j - a < i" using that p by auto
    then have "\<not> P ([a..<b] ! (j - a))" using i(4) by blast
    moreover have "[a..<b] ! (j - a) = j" using that p by auto
    ultimately show ?thesis by simp
  qed
  then show "a \<le> p \<and> p < b \<and> P p \<and> (\<forall>j. a \<le> j \<and> j < p \<longrightarrow> \<not> P j)"
    using i p by auto
next
  assume r: "a \<le> p \<and> p < b \<and> P p \<and> (\<forall>j. a \<le> j \<and> j < p \<longrightarrow> \<not> P j)"
  have "p - a < length [a..<b] \<and> P ([a..<b] ! (p - a)) \<and> p = [a..<b] ! (p - a)
        \<and> (\<forall>j<p - a. \<not> P ([a..<b] ! j))"
    using r by auto
  then show "find P [a..<b] = Some p"
    unfolding find_Some_iff by blast
qed

lemma find_upt_None:
  "find P [a..<b] = None \<longleftrightarrow> (\<forall>j. a \<le> j \<and> j < b \<longrightarrow> \<not> P j)"
  by (auto simp add: find_None_iff)





















lemma le_pair: "uint (lo :: byte) OR push_bit 8 (uint (hi :: byte)) = uint lo + 256 * uint hi"
  using be_pair [of hi lo] by (simp add: or.commute)

lemma u16_le_Some:
  "i + 1 < length d \<Longrightarrow> u16_le d i = Some (uint (d ! i) + 256 * uint (d ! (i + 1)))"
  by (simp add: u16_le_def le_pair)

lemma u16_le_None: "\<not> i + 1 < length d \<Longrightarrow> u16_le d i = None"
  by (simp add: u16_le_def)

lemma in_window_iff:
  "in_window d v_guess i \<longleftrightarrow>
     i + 1 < length d \<and> v_guess - 12 \<le> uint (d ! i) + 256 * uint (d ! (i + 1))
     \<and> uint (d ! i) + 256 * uint (d ! (i + 1)) \<le> v_guess + 12"
  by (cases "i + 1 < length d") (simp_all add: in_window_def u16_le_Some u16_le_None)

lemma find_loop_find:
  "\<forall>i\<in>set is. i + 1 < length d \<Longrightarrow>
     find_loop d (v_guess - 12) (v_guess + 12) is = Some (find (in_window d v_guess) is)"
  by (induction "is") (simp_all add: u16_le_Some in_window_iff)

lemma find_pack_idx_find:
  "find_pack_idx d base_start v_guess
     = Some (find (in_window d v_guess) [base_start..<length d - 8])"
  unfolding find_pack_idx_def Let_def
  by (rule find_loop_find) auto

lemma find_pack_idx_hit:
  "find_pack_idx d base_start v_guess = Some (Some p) \<longleftrightarrow>
     base_start \<le> p \<and> p + 8 < length d \<and> in_window d v_guess p
     \<and> (\<forall>j. base_start \<le> j \<and> j < p \<longrightarrow> \<not> in_window d v_guess j)"
  by (auto simp add: find_pack_idx_find find_upt_Some)

lemma find_pack_idx_miss:
  "find_pack_idx d base_start v_guess = Some None \<longleftrightarrow>
     (\<forall>j. base_start \<le> j \<and> j + 8 < length d \<longrightarrow> \<not> in_window d v_guess j)"
  by (auto simp add: find_pack_idx_find find_upt_None)

subsection \<open>The cell sum in floating point\<close>

lemma ulp53_small: "0 < ulp53" "ulp53 < 1 / 10 ^ 8"
  by (simp_all add: ulp53_def)

lemma fl_close:
  assumes "\<bar>q - x\<bar> \<le> e" "\<bar>q\<bar> \<le> B"
  shows "\<bar>fl q - x\<bar> \<le> e + B * ulp53"
proof -
  have "\<bar>fl q - q\<bar> \<le> \<bar>q\<bar> * ulp53" by (rule fl_err)
  also have "\<dots> \<le> B * ulp53"
    using assms(2) ulp53_small(1) by (simp add: mult_right_mono)
  finally have "\<bar>fl q - q\<bar> \<le> B * ulp53" .
  with assms(1) show ?thesis by linarith
qed

lemma cell_err:
  assumes "0 \<le> n" "n < 65536"
  shows "\<bar>py_truediv n 1000 - of_int n / 1000\<bar> \<le> 66 * ulp53"
proof -
  have "(of_int n :: rat) < 65536" "0 \<le> (of_int n :: rat)"
    using assms by simp_all
  then have b: "\<bar>(of_int n :: rat) / of_int 1000\<bar> \<le> 66" by simp
  have "\<bar>fl (of_int n / of_int 1000) - of_int n / 1000\<bar> \<le> 0 + 66 * ulp53"
    by (rule fl_close [OF _ b]) simp
  then show ?thesis by (simp add: py_truediv_def)
qed

lemma foldl_py_add_err:
  assumes "\<forall>n\<in>set ns. 0 \<le> n \<and> n < 65536" "j + length ns \<le> 24"
    and "\<bar>acc - A\<bar> \<le> of_nat j * (2048 * ulp53)" "0 \<le> A" "A \<le> 66 * of_nat j"
  shows "\<bar>foldl py_add acc (map (\<lambda>n. py_truediv n 1000) ns) - (A + of_int (sum_list ns) / 1000)\<bar>
           \<le> of_nat (j + length ns) * (2048 * ulp53)"
  using assms
proof (induction ns arbitrary: j acc A)
  case Nil
  then show ?case by simp
next
  case (Cons n ns)
  define c where "c = py_truediv n 1000"
  define x :: rat where "x = of_int n / 1000"
  have n: "0 \<le> n" "n < 65536" using Cons.prems(1) by simp_all
  have x: "0 \<le> x" "x \<le> 66" using n by (simp_all add: x_def)
  have c: "\<bar>c - x\<bar> \<le> 66 * ulp53" unfolding c_def x_def using n by (rule cell_err)
  have j: "(of_nat j :: rat) \<le> 23" using Cons.prems(2) by simp
  have jE: "(of_nat j :: rat) * (2048 * ulp53) \<le> 23 * (2048 * ulp53)"
    using j ulp53_small(1) by (simp add: mult_right_mono)
  have e1: "\<bar>(acc + c) - (A + x)\<bar> \<le> of_nat j * (2048 * ulp53) + 66 * ulp53"
    using Cons.prems(3) c by linarith
  have "\<bar>acc + c\<bar> \<le> \<bar>A + x\<bar> + \<bar>(acc + c) - (A + x)\<bar>" by linarith
  also have "\<dots> \<le> (66 * 23 + 66) + (23 * (2048 * ulp53) + 66 * ulp53)"
    using e1 jE x Cons.prems(4,5) j by linarith
  also have "\<dots> \<le> 1600" using ulp53_small by simp
  finally have b: "\<bar>acc + c\<bar> \<le> 1600" .
  have "\<bar>fl (acc + c) - (A + x)\<bar> \<le> (of_nat j * (2048 * ulp53) + 66 * ulp53) + 1600 * ulp53"
    by (rule fl_close [OF e1 b])
  also have "\<dots> \<le> of_nat (Suc j) * (2048 * ulp53)"
    using ulp53_small(1) by (simp add: algebra_simps)
  finally have e2: "\<bar>py_add acc c - (A + x)\<bar> \<le> of_nat (Suc j) * (2048 * ulp53)"
    by (simp add: py_add_def)
  have "\<bar>foldl py_add (py_add acc c) (map (\<lambda>n. py_truediv n 1000) ns)
          - ((A + x) + of_int (sum_list ns) / 1000)\<bar>
        \<le> of_nat (Suc j + length ns) * (2048 * ulp53)"
  proof (rule Cons.IH [OF _ _ e2])
    show "\<forall>n\<in>set ns. 0 \<le> n \<and> n < 65536" using Cons.prems(1) by simp
    show "Suc j + length ns \<le> 24" using Cons.prems(2) by simp
    show "0 \<le> A + x" using x Cons.prems(4) by simp
    show "A + x \<le> 66 * of_nat (Suc j)" using x Cons.prems(5) by simp
  qed
  moreover have "(A + x) + of_int (sum_list ns) / 1000 = A + of_int (sum_list (n # ns)) / 1000"
    by (simp add: x_def add_divide_distrib)
  ultimately show ?case by (simp add: c_def)
qed

lemma py_sum_err:
  assumes "\<forall>n\<in>set ns. 0 \<le> n \<and> n < 65536" "length ns \<le> 24"
  shows "\<bar>py_sum (map (\<lambda>n. py_truediv n 1000) ns) - of_int (sum_list ns) / 1000\<bar>
           \<le> 24 * (2048 * ulp53)"
proof -
  have "\<bar>foldl py_add 0 (map (\<lambda>n. py_truediv n 1000) ns) - (0 + of_int (sum_list ns) / 1000)\<bar>
           \<le> of_nat (0 + length ns) * (2048 * ulp53)"
    by (rule foldl_py_add_err) (use assms in simp_all)
  also have "(of_nat (0 + length ns) :: rat) \<le> 24"
    using assms(2) by simp
  then have "of_nat (0 + length ns) * (2048 * ulp53) \<le> 24 * (2048 * ulp53)"
    using ulp53_small(1) by (intro mult_right_mono) simp_all
  finally show ?thesis by (simp add: py_sum_def)
qed

lemma sum_list_bound:
  "\<forall>n\<in>set ns. 0 \<le> n \<and> n < (65536 :: int) \<Longrightarrow> 0 \<le> sum_list ns \<and> sum_list ns \<le> 65536 * int (length ns)"
  by (induction ns) auto

lemma v_guess_nearest:
  assumes "\<forall>n\<in>set ns. 0 \<le> n \<and> n < 65536" "length ns \<le> 24"
    and "\<bar>sum_list ns - 10 * k\<bar> \<le> 4"
  shows "v_guess_of (py_sum (map (\<lambda>n. py_truediv n 1000) ns)) = k"
proof -
  define T where "T = py_sum (map (\<lambda>n. py_truediv n 1000) ns)"
  define S :: rat where "S = of_int (sum_list ns)"
  have T: "\<bar>T - S / 1000\<bar> \<le> 24 * (2048 * ulp53)"
    unfolding T_def S_def using assms(1,2) by (rule py_sum_err)
  have "0 \<le> sum_list ns \<and> sum_list ns \<le> 65536 * int (length ns)"
    using assms(1) by (rule sum_list_bound)
  then have "0 \<le> sum_list ns" "sum_list ns \<le> 65536 * 24" using assms(2) by auto
  then have S: "0 \<le> S" "S \<le> 1572864" unfolding S_def by simp_all
  have e1: "\<bar>T * 100 - S / 10\<bar> \<le> 2400 * (2048 * ulp53)"
    using T by (simp add: abs_if split: if_splits)
  have "\<bar>T * 100\<bar> \<le> \<bar>S / 10\<bar> + \<bar>T * 100 - S / 10\<bar>" by linarith
  also have "\<dots> \<le> 157287 + 2400 * (2048 * ulp53)" using S e1 by simp
  also have "\<dots> \<le> 157288" using ulp53_small by simp
  finally have b: "\<bar>T * 100\<bar> \<le> 157288" .
  have P: "\<bar>fl (T * 100) - S / 10\<bar> \<le> 2400 * (2048 * ulp53) + 157288 * ulp53"
    by (rule fl_close [OF e1 b])
  have "\<bar>(of_int (sum_list ns - 10 * k) :: rat)\<bar> \<le> 4"
    using assms(3) by (metis of_int_abs of_int_le_numeral_iff)
  then have "\<bar>S / 10 - of_int k\<bar> \<le> 4 / 10" by (simp add: S_def abs_if split: if_splits)
  with P have "\<bar>fl (T * 100) - of_int k\<bar> \<le> 4 / 10 + (2400 * (2048 * ulp53) + 157288 * ulp53)"
    by linarith
  also have "\<dots> < 1 / 2" using ulp53_small by simp
  finally have "rhe (fl (T * 100)) = k" by (rule rhe_near)
  then show ?thesis by (simp add: v_guess_of_def py_round_def py_mul_def T_def)
qed

subsection \<open>BMS decoding\<close>

lemma those_map_Some:
  "\<forall>x\<in>set xs. f x = Some (g x) \<Longrightarrow> those (map f xs) = Some (map g xs)"
  by (induction xs) simp_all

lemma those_map_None:
  "\<exists>x\<in>set xs. f x = None \<Longrightarrow> those (map f xs) = None"
  by (induction xs) (auto split: option.splits)

lemma cell_mv_range: "0 \<le> cell_mv d i \<and> cell_mv d i < 65536"
proof -
  have "0 \<le> uint (d ! (2 * i))" "uint (d ! (2 * i)) < 256"
       "0 \<le> uint (d ! (2 * i + 1))" "uint (d ! (2 * i + 1)) < 256"
    using uint_lt2p [of "d ! (2 * i)"] uint_lt2p [of "d ! (2 * i + 1)"] by simp_all
  then show ?thesis unfolding cell_mv_def by linarith
qed

lemma cell_voltages_Some:
  assumes "2 * series_count \<le> length d"
  shows "cell_voltages d series_count
           = Some (map (\<lambda>i. py_truediv (cell_mv d i) 1000) [0..<series_count])"
  unfolding cell_voltages_def
proof (rule those_map_Some, rule ballI)
  fix i assume "i \<in> set [0..<series_count]"
  then have i: "i * 2 + 1 < length d" using assms by auto
  have "py_round_nd (py_truediv (cell_mv d i) 1000) 3 = py_truediv (cell_mv d i) 1000"
    using cell_mv_range [of d i] by (intro round3_div1000) simp
  then show "map_option (\<lambda>v. py_round_nd (py_truediv v 1000) 3) (u16_le d (i * 2))
               = Some (py_truediv (cell_mv d i) 1000)"
    using i by (simp add: u16_le_Some cell_mv_def mult.commute)
qed

lemma cell_voltages_None:
  assumes "length d < 2 * series_count"
  shows "cell_voltages d series_count = None"
  unfolding cell_voltages_def
proof (rule those_map_None)
  have "series_count - 1 \<in> set [0..<series_count]" using assms by auto
  moreover have "\<not> (series_count - 1) * 2 + 1 < length d" using assms by auto
  then have "map_option (\<lambda>v. py_round_nd (py_truediv v 1000) 3) (u16_le d ((series_count - 1) * 2))
               = None"
    by (simp add: u16_le_None)
  ultimately show "\<exists>i\<in>set [0..<series_count].
      map_option (\<lambda>v. py_round_nd (py_truediv v 1000) 3) (u16_le d (i * 2)) = None"
    by blast
qed

lemma cell_voltages_iff:
  "cell_voltages d series_count \<noteq> None \<longleftrightarrow> 2 * series_count \<le> length d"
  using cell_voltages_Some [of series_count d] cell_voltages_None [of d series_count]
  by (cases "2 * series_count \<le> length d") auto

lemma v_guess_cells:
  assumes "cell_voltages d series_count = Some cells" "series_count \<le> 24"
    and "\<bar>(\<Sum>i\<leftarrow>[0..<series_count]. cell_mv d i) - 10 * k\<bar> \<le> 4"
  shows "v_guess_of (py_sum cells) = k"
proof -
  have "2 * series_count \<le> length d" using assms(1) cell_voltages_iff by blast
  then have "cells = map (\<lambda>n. py_truediv n 1000) (map (cell_mv d) [0..<series_count])"
    using assms(1) by (simp add: cell_voltages_Some comp_def)
  moreover have "v_guess_of (py_sum (map (\<lambda>n. py_truediv n 1000) (map (cell_mv d) [0..<series_count]))) = k"
  proof (rule v_guess_nearest)
    show "\<forall>n\<in>set (map (cell_mv d) [0..<series_count]). 0 \<le> n \<and> n < 65536"
      using cell_mv_range by auto
    show "length (map (cell_mv d) [0..<series_count]) \<le> 24" using assms(2) by simp
    show "\<bar>sum_list (map (cell_mv d) [0..<series_count]) - 10 * k\<bar> \<le> 4" using assms(3) by simp
  qed
  ultimately show ?thesis by simp
qed

text \<open>The reading after the pack summary has been stored.\<close>

definition store_pack :: "dict \<Rightarrow> rat list \<Rightarrow> rat \<times> rat \<times> int \<times> int \<Rightarrow> dict" where
  "store_pack data cells summary =
     (case summary of (vpack, ipack, soc, soh) \<Rightarrow>
        dict_set (dict_set (dict_set (dict_set (dict_set
          (dict_set (dict_set (dict_set (dict_set data
             ''bms_cell_1_voltage'' (cell_or_zero cells 0))
             ''bms_cell_2_voltage'' (cell_or_zero cells 1))
             ''bms_cell_3_voltage'' (cell_or_zero cells 2))
             ''bms_cell_4_voltage'' (cell_or_zero cells 3))
          ''bms_battery_voltage'' (VFloat vpack))
          ''bms_battery_current'' (VFloat ipack))
          ''bms_battery_soc'' (VInt soc))
          ''bms_battery_soh'' (VInt soh))
          ''bms_battery_power'' (VFloat (py_round_nd (py_mul vpack ipack) 2)))"

lemma map_of_store_pack:
  "map_of (store_pack data cells (vpack, ipack, soc, soh)) =
     (map_of data)
       (''bms_cell_1_voltage'' \<mapsto> cell_or_zero cells 0,
        ''bms_cell_2_voltage'' \<mapsto> cell_or_zero cells 1,
        ''bms_cell_3_voltage'' \<mapsto> cell_or_zero cells 2,
        ''bms_cell_4_voltage'' \<mapsto> cell_or_zero cells 3,
        ''bms_battery_voltage'' \<mapsto> VFloat vpack,
        ''bms_battery_current'' \<mapsto> VFloat ipack,
        ''bms_battery_soc'' \<mapsto> VInt soc,
        ''bms_battery_soh'' \<mapsto> VInt soh,
        ''bms_battery_power'' \<mapsto> VFloat (py_round_nd (py_mul vpack ipack) 2))"
  by (simp add: store_pack_def map_of_dict_set)

lemma decode_realtime_unfold:
  assumes "cell_voltages d series_count = Some cells"
    and "find_pack_idx d (base_start_of d series_count) (v_guess_of (py_sum cells)) = Some pack_idx"
    and "pack_summary d (py_sum cells) pack_idx = Some summary"
  shows "decode_realtime d series_count data = Some (store_pack data cells summary)"
  using assms by (cases summary) (simp add: decode_realtime_def Let_def store_pack_def)

lemma uint_byte_nonneg: "0 \<le> uint (b :: byte)"
  by simp

lemma soc_at_eq:
  "soc_at d i = (if i < length d \<and> uint (d ! i) \<le> 100 then uint (d ! i) else 0)"
  by (simp add: soc_at_def Let_def)

lemma pack_summary_miss: "pack_summary d total_v None = Some (py_round_nd total_v 2, 0, 0, 0)"
  by (simp add: pack_summary_def)

lemma pack_summary_hit:
  assumes "p + 8 < length d"
  shows "pack_summary d total_v (Some p)
     = Some (py_round_nd (py_truediv (uint (d ! p) + 256 * uint (d ! (p + 1))) 100) 2,
             py_round_nd (py_truediv
                (if uint (d ! (p + 2)) + 256 * uint (d ! (p + 3)) > 32767
                 then uint (d ! (p + 2)) + 256 * uint (d ! (p + 3)) - 65536
                 else uint (d ! (p + 2)) + 256 * uint (d ! (p + 3))) 100) 2,
             soc_at d (p + 6), soc_at d (p + 7))"
proof -
  have "u16_le d p = Some (uint (d ! p) + 256 * uint (d ! (p + 1)))"
    using assms by (simp add: u16_le_Some)
  moreover have "u16_le d (p + 2) = Some (uint (d ! (p + 2)) + 256 * uint (d ! (p + 3)))"
    using assms u16_le_Some [of "p + 2" d] by (simp add: numeral_3_eq_3)
  ultimately show ?thesis
    by (simp add: pack_summary_def i16_le_def)
qed

lemma decode_realtime_miss:
  assumes "cell_voltages d series_count = Some cells"
    and "find_pack_idx d (base_start_of d series_count) (v_guess_of (py_sum cells)) = Some None"
  shows "decode_realtime d series_count data
           = Some (store_pack data cells (py_round_nd (py_sum cells) 2, 0, 0, 0))"
  by (rule decode_realtime_unfold [OF assms pack_summary_miss])

lemma decode_realtime_hit:
  assumes "cell_voltages d series_count = Some cells"
    and "find_pack_idx d (base_start_of d series_count) (v_guess_of (py_sum cells)) = Some (Some p)"
  shows "decode_realtime d series_count data
     = Some (store_pack data cells
        (py_round_nd (py_truediv (uint (d ! p) + 256 * uint (d ! (p + 1))) 100) 2,
         py_round_nd (py_truediv
                (if uint (d ! (p + 2)) + 256 * uint (d ! (p + 3)) > 32767
                 then uint (d ! (p + 2)) + 256 * uint (d ! (p + 3)) - 65536
                 else uint (d ! (p + 2)) + 256 * uint (d ! (p + 3))) 100) 2,
         soc_at d (p + 6), soc_at d (p + 7)))"
proof -
  have "p + 8 < length d" using assms(2) by (simp add: find_pack_idx_hit)
  then show ?thesis
    by (rule decode_realtime_unfold [OF assms pack_summary_hit])
qed

lemma find_pack_idx_cases:
  obtains (miss) "find_pack_idx d base_start v_guess = Some None"
  | (hit) p where "find_pack_idx d base_start v_guess = Some (Some p)"
  by (cases "find (in_window d v_guess) [base_start..<length d - 8]")
     (simp_all add: find_pack_idx_find)

lemma decode_realtime_total:
  assumes "cell_voltages d series_count = Some cells"
  shows "\<exists>summary. decode_realtime d series_count data = Some (store_pack data cells summary)"
proof (cases rule: find_pack_idx_cases
    [of d "base_start_of d series_count" "v_guess_of (py_sum cells)"])
  case miss
  then show ?thesis using decode_realtime_miss [OF assms] by blast
next
  case (hit p)
  then show ?thesis using decode_realtime_hit [OF assms] by blast
qed

lemma decode_realtime_None:
  "decode_realtime d series_count data = None \<longleftrightarrow> length d < 2 * series_count"
proof (cases "cell_voltages d series_count")
  case None
  then show ?thesis using cell_voltages_iff [of d series_count]
    by (simp add: decode_realtime_def)
next
  case (Some cells)
  then show ?thesis
    using decode_realtime_total [OF Some, of data] cell_voltages_iff [of d series_count] by auto
qed

lemma v_guess_round: "\<bar>of_int (v_guess_of total_v) - py_mul total_v 100\<bar> \<le> 1 / 2"
  unfolding v_guess_of_def py_round_def by (rule rhe_err)

lemma v_guess_within:
  assumes "\<forall>n\<in>set ns. 0 \<le> n \<and> n < 65536" "length ns \<le> 24"
  shows "\<bar>10 * v_guess_of (py_sum (map (\<lambda>n. py_truediv n 1000) ns)) - sum_list ns\<bar> \<le> 5"
proof -
  define T where "T = py_sum (map (\<lambda>n. py_truediv n 1000) ns)"
  define S :: rat where "S = of_int (sum_list ns)"
  define v where "v = v_guess_of T"
  have T: "\<bar>T - S / 1000\<bar> \<le> 24 * (2048 * ulp53)"
    unfolding T_def S_def using assms(1,2) by (rule py_sum_err)
  have "0 \<le> sum_list ns \<and> sum_list ns \<le> 65536 * int (length ns)"
    using assms(1) by (rule sum_list_bound)
  then have "0 \<le> sum_list ns" "sum_list ns \<le> 65536 * 24" using assms(2) by auto
  then have S: "0 \<le> S" "S \<le> 1572864" unfolding S_def by simp_all
  have e1: "\<bar>T * 100 - S / 10\<bar> \<le> 2400 * (2048 * ulp53)"
    using T by (simp add: abs_if split: if_splits)
  have "\<bar>T * 100\<bar> \<le> \<bar>S / 10\<bar> + \<bar>T * 100 - S / 10\<bar>" by linarith
  also have "\<dots> \<le> 157287 + 2400 * (2048 * ulp53)" using S e1 by simp
  also have "\<dots> \<le> 157288" using ulp53_small by simp
  finally have b: "\<bar>T * 100\<bar> \<le> 157288" .
  have P: "\<bar>fl (T * 100) - S / 10\<bar> \<le> 2400 * (2048 * ulp53) + 157288 * ulp53"
    by (rule fl_close [OF e1 b])
  have "\<bar>of_int v - fl (T * 100)\<bar> \<le> 1 / 2"
    using v_guess_round [of T] by (simp add: v_def py_mul_def)
  with P have "\<bar>of_int v - S / 10\<bar> \<le> 1 / 2 + (2400 * (2048 * ulp53) + 157288 * ulp53)"
    by linarith
  also have "\<dots> < 6 / 10" using ulp53_small by simp
  finally have "\<bar>of_int v - S / 10\<bar> < 6 / 10" .
  then have "\<bar>(of_int (10 * v - sum_list ns) :: rat)\<bar> < 6"
    by (simp add: S_def abs_if split: if_splits)
  then have "\<bar>10 * v - sum_list ns\<bar> < 6"
    by (simp only: of_int_abs [symmetric] of_int_less_numeral_iff)
  then show ?thesis by (simp add: v_def T_def)
qed

lemma v_guess_cells_within:
  assumes "cell_voltages d series_count = Some cells" "series_count \<le> 24"
  shows "\<bar>10 * v_guess_of (py_sum cells) - (\<Sum>i\<leftarrow>[0..<series_count]. cell_mv d i)\<bar> \<le> 5"
proof -
  have "2 * series_count \<le> length d" using assms(1) cell_voltages_iff by blast
  then have "cells = map (\<lambda>n. py_truediv n 1000) (map (cell_mv d) [0..<series_count])"
    using assms(1) by (simp add: cell_voltages_Some comp_def)
  moreover have "\<bar>10 * v_guess_of (py_sum (map (\<lambda>n. py_truediv n 1000)
      (map (cell_mv d) [0..<series_count]))) - sum_list (map (cell_mv d) [0..<series_count])\<bar> \<le> 5"
  proof (rule v_guess_within)
    show "\<forall>n\<in>set (map (cell_mv d) [0..<series_count]). 0 \<le> n \<and> n < 65536"
      using cell_mv_range by auto
    show "length (map (cell_mv d) [0..<series_count]) \<le> 24" using assms(2) by simp
  qed
  ultimately show ?thesis by simp
qed

lemma store_pack_fields:
  "map_of (store_pack data cells (vpack, ipack, soc, soh)) ''bms_battery_voltage''
     = Some (VFloat vpack)"
  "map_of (store_pack data cells (vpack, ipack, soc, soh)) ''bms_battery_current''
     = Some (VFloat ipack)"
  by (simp_all add: map_of_store_pack)

lemma decode_realtime_hit_fields:
  assumes "cell_voltages d series_count = Some cells"
    and "find_pack_idx d (base_start_of d series_count) (v_guess_of (py_sum cells)) = Some (Some p)"
  shows "\<exists>r. decode_realtime d series_count data = Some r
     \<and> map_of r ''bms_battery_voltage''
         = Some (VFloat (py_round_nd (py_truediv (uint (d ! p) + 256 * uint (d ! (p + 1))) 100) 2))
     \<and> map_of r ''bms_battery_current''
         = Some (VFloat (py_round_nd (py_truediv
              (if uint (d ! (p + 2)) + 256 * uint (d ! (p + 3)) > 32767
               then uint (d ! (p + 2)) + 256 * uint (d ! (p + 3)) - 65536
               else uint (d ! (p + 2)) + 256 * uint (d ! (p + 3))) 100) 2))"
  unfolding decode_realtime_hit [OF assms, of data]
  by (simp add: store_pack_fields)

lemma decode_realtime_miss_fields:
  assumes "cell_voltages d series_count = Some cells"
    and "find_pack_idx d (base_start_of d series_count) (v_guess_of (py_sum cells)) = Some None"
  shows "\<exists>r. decode_realtime d series_count data = Some r
     \<and> map_of r ''bms_battery_voltage'' = Some (VFloat (py_round_nd (py_sum cells) 2))
     \<and> map_of r ''bms_battery_current'' = Some (VFloat 0)"
  unfolding decode_realtime_miss [OF assms, of data]
  by (simp add: store_pack_fields)

text \<open>
  C3: the locator returns offset \<open>p\<close> exactly when \<open>p\<close> is the first offset from the scan
  start on, with more than 8 bytes of payload from it, whose little-endian 16-bit value
  lies within 12 of \<open>v_guess\<close>, and it returns no offset exactly when there is none.
  \<open>v_guess\<close> is \<^verbatim>\<open>round(total_v * 100)\<close>, an integer within one half of that product;
  for the cells decoded from a payload, ten times \<open>v_guess\<close> is within 5 of their sum in
  millivolts, and \<open>v_guess\<close> is \<open>k\<close> when that sum is within 4 of \<open>10 * k\<close>. The decoder
  scans from the scan start of the payload with this \<open>v_guess\<close>: the voltage and the
  current that it reports are those at the offset returned, and the rounded cell sum and
  zero when none is. For four cells whose millivolts sum to 13000, \<open>v_guess\<close> is 1300, an
  offset that holds 1312 is returned when no earlier one matches, and an offset that holds
  1313 is never returned.
\<close>

theorem C3_locator_window:
  "(find_pack_idx d base_start v_guess = Some (Some p) \<longleftrightarrow>
      base_start \<le> p \<and> p + 8 < length d \<and> in_window d v_guess p
      \<and> (\<forall>j. base_start \<le> j \<and> j < p \<longrightarrow> \<not> in_window d v_guess j))
   \<and> (find_pack_idx d base_start v_guess = Some None \<longleftrightarrow>
      (\<forall>j. base_start \<le> j \<and> j + 8 < length d \<longrightarrow> \<not> in_window d v_guess j))
   \<and> (in_window d v_guess p \<longleftrightarrow>
      p + 1 < length d \<and> v_guess - 12 \<le> uint (d ! p) + 256 * uint (d ! (p + 1))
      \<and> uint (d ! p) + 256 * uint (d ! (p + 1)) \<le> v_guess + 12)
   \<and> v_guess_of total_v = py_round (py_mul total_v 100)
   \<and> \<bar>of_int (v_guess_of total_v) - py_mul total_v 100\<bar> \<le> 1 / 2
   \<and> (cell_voltages d series_count = Some cells \<and> series_count \<le> 24 \<longrightarrow>
        \<bar>10 * v_guess_of (py_sum cells) - (\<Sum>i\<leftarrow>[0..<series_count]. cell_mv d i)\<bar> \<le> 5
        \<and> (\<forall>k. \<bar>(\<Sum>i\<leftarrow>[0..<series_count]. cell_mv d i) - 10 * k\<bar> \<le> 4 \<longrightarrow>
              v_guess_of (py_sum cells) = k)
        \<and> (find_pack_idx d (base_start_of d series_count) (v_guess_of (py_sum cells))
              = Some (Some p) \<longrightarrow>
            (\<exists>r. decode_realtime d series_count data = Some r
               \<and> map_of r ''bms_battery_voltage''
                   = Some (VFloat (py_round_nd (py_truediv (uint (d ! p) + 256 * uint (d ! (p + 1))) 100) 2))
               \<and> map_of r ''bms_battery_current''
                   = Some (VFloat (py_round_nd (py_truediv
                       (if uint (d ! (p + 2)) + 256 * uint (d ! (p + 3)) > 32767
                        then uint (d ! (p + 2)) + 256 * uint (d ! (p + 3)) - 65536
                        else uint (d ! (p + 2)) + 256 * uint (d ! (p + 3))) 100) 2))))
        \<and> (find_pack_idx d (base_start_of d series_count) (v_guess_of (py_sum cells))
              = Some None \<longrightarrow>
            (\<exists>r. decode_realtime d series_count data = Some r
               \<and> map_of r ''bms_battery_voltage'' = Some (VFloat (py_round_nd (py_sum cells) 2))
               \<and> map_of r ''bms_battery_current'' = Some (VFloat 0))))
   \<and> (cell_voltages d 4 = Some cells
        \<and> cell_mv d 0 + cell_mv d 1 + cell_mv d 2 + cell_mv d 3 = 13000 \<longrightarrow>
        v_guess_of (py_sum cells) = 1300
        \<and> (base_start_of d 4 \<le> p \<and> p + 8 < length d
             \<and> uint (d ! p) + 256 * uint (d ! (p + 1)) = 1312
             \<and> (\<forall>j. base_start_of d 4 \<le> j \<and> j < p \<longrightarrow> \<not> in_window d 1300 j) \<longrightarrow>
             find_pack_idx d (base_start_of d 4) (v_guess_of (py_sum cells)) = Some (Some p))
        \<and> (uint (d ! p) + 256 * uint (d ! (p + 1)) = 1313 \<longrightarrow>
             find_pack_idx d (base_start_of d 4) (v_guess_of (py_sum cells)) \<noteq> Some (Some p)))"
proof (intro conjI impI allI)
  show "find_pack_idx d base_start v_guess = Some (Some p) \<longleftrightarrow>
      base_start \<le> p \<and> p + 8 < length d \<and> in_window d v_guess p
      \<and> (\<forall>j. base_start \<le> j \<and> j < p \<longrightarrow> \<not> in_window d v_guess j)"
    by (rule find_pack_idx_hit)
  show "find_pack_idx d base_start v_guess = Some None \<longleftrightarrow>
      (\<forall>j. base_start \<le> j \<and> j + 8 < length d \<longrightarrow> \<not> in_window d v_guess j)"
    by (rule find_pack_idx_miss)
  show "in_window d v_guess p \<longleftrightarrow>
      p + 1 < length d \<and> v_guess - 12 \<le> uint (d ! p) + 256 * uint (d ! (p + 1))
      \<and> uint (d ! p) + 256 * uint (d ! (p + 1)) \<le> v_guess + 12"
    by (rule in_window_iff)
  show "v_guess_of total_v = py_round (py_mul total_v 100)"
    by (simp add: v_guess_of_def)
  show "\<bar>of_int (v_guess_of total_v) - py_mul total_v 100\<bar> \<le> 1 / 2"
    by (rule v_guess_round)
next
  assume a: "cell_voltages d series_count = Some cells \<and> series_count \<le> 24"
  then show "\<bar>10 * v_guess_of (py_sum cells) - (\<Sum>i\<leftarrow>[0..<series_count]. cell_mv d i)\<bar> \<le> 5"
    by (intro v_guess_cells_within) simp_all
  {
    fix k assume "\<bar>(\<Sum>i\<leftarrow>[0..<series_count]. cell_mv d i) - 10 * k\<bar> \<le> 4"
    with a show "v_guess_of (py_sum cells) = k"
      by (intro v_guess_cells [of d series_count]) simp_all
  }
  {
    assume "find_pack_idx d (base_start_of d series_count) (v_guess_of (py_sum cells))
              = Some (Some p)"
    with a show "\<exists>r. decode_realtime d series_count data = Some r
               \<and> map_of r ''bms_battery_voltage''
                   = Some (VFloat (py_round_nd (py_truediv (uint (d ! p) + 256 * uint (d ! (p + 1))) 100) 2))
               \<and> map_of r ''bms_battery_current''
                   = Some (VFloat (py_round_nd (py_truediv
                       (if uint (d ! (p + 2)) + 256 * uint (d ! (p + 3)) > 32767
                        then uint (d ! (p + 2)) + 256 * uint (d ! (p + 3)) - 65536
                        else uint (d ! (p + 2)) + 256 * uint (d ! (p + 3))) 100) 2))"
      by (intro decode_realtime_hit_fields) simp_all
  }
  {
    assume "find_pack_idx d (base_start_of d series_count) (v_guess_of (py_sum cells))
              = Some None"
    with a show "\<exists>r. decode_realtime d series_count data = Some r
               \<and> map_of r ''bms_battery_voltage'' = Some (VFloat (py_round_nd (py_sum cells) 2))
               \<and> map_of r ''bms_battery_current'' = Some (VFloat 0)"
      by (intro decode_realtime_miss_fields) simp_all
  }
next
  assume a: "cell_voltages d 4 = Some cells
        \<and> cell_mv d 0 + cell_mv d 1 + cell_mv d 2 + cell_mv d 3 = 13000"
  have "[0..<4] = [0, 1, 2, 3]" by (simp add: upt_rec)
  then have "(\<Sum>i\<leftarrow>[0..<4]. cell_mv d i) = 13000" using a by simp
  then have "\<bar>(\<Sum>i\<leftarrow>[0..<4]. cell_mv d i) - 10 * 1300\<bar> \<le> 4" by simp
  with a show g: "v_guess_of (py_sum cells) = 1300"
    by (intro v_guess_cells [of d 4]) simp_all
  {
    assume "base_start_of d 4 \<le> p \<and> p + 8 < length d
             \<and> uint (d ! p) + 256 * uint (d ! (p + 1)) = 1312
             \<and> (\<forall>j. base_start_of d 4 \<le> j \<and> j < p \<longrightarrow> \<not> in_window d 1300 j)"
    then show "find_pack_idx d (base_start_of d 4) (v_guess_of (py_sum cells)) = Some (Some p)"
      by (simp add: g find_pack_idx_hit in_window_iff)
  }
  {
    assume "uint (d ! p) + 256 * uint (d ! (p + 1)) = 1313"
    then show "find_pack_idx d (base_start_of d 4) (v_guess_of (py_sum cells)) \<noteq> Some (Some p)"
      by (simp add: g find_pack_idx_hit in_window_iff)
  }
qed

lemma payload_1312_facts:
  "cell_mv payload_1312 0 + cell_mv payload_1312 1 + cell_mv payload_1312 2 + cell_mv payload_1312 3
     = 13000"
  "base_start_of payload_1312 4 = 8" "length payload_1312 = 19"
  "uint (payload_1312 ! 10) + 256 * uint (payload_1312 ! 11) = 1312"
  "\<not> in_window payload_1312 1300 8" "\<not> in_window payload_1312 1300 9"
  by code_simp+

lemma payload_1312_cells: "cell_voltages payload_1312 4 \<noteq> None"
  by (rule cell_voltages_iff [THEN iffD2]) (simp add: payload_1312_facts(3))

lemma payload_1313_facts:
  "cell_mv payload_1313 0 + cell_mv payload_1313 1 + cell_mv payload_1313 2 + cell_mv payload_1313 3
     = 13000"
  "base_start_of payload_1313 4 = 8" "length payload_1313 = 19"
  "uint (payload_1313 ! 10) + 256 * uint (payload_1313 ! 11) = 1313"
  "\<not> in_window payload_1313 1300 8" "\<not> in_window payload_1313 1300 9"
  by code_simp+

lemma payload_1313_cells: "cell_voltages payload_1313 4 \<noteq> None"
  by (rule cell_voltages_iff [THEN iffD2]) (simp add: payload_1313_facts(3))

lemma payload_1200_facts:
  "(\<Sum>i\<leftarrow>[0..<4]. cell_mv payload_1200 i) = 12000" "length payload_1200 = 19"
  by code_simp+

lemma payload_1200_cells: "cell_voltages payload_1200 4 \<noteq> None"
  by (rule cell_voltages_iff [THEN iffD2]) (simp add: payload_1200_facts(2))

theorem C3_locator_window_witness:
  "find_pack_idx payload_1312 (base_start_of payload_1312 4)
       (v_guess_of (py_sum (the (cell_voltages payload_1312 4)))) = Some (Some 10)
   \<and> find_pack_idx payload_1313 (base_start_of payload_1313 4)
       (v_guess_of (py_sum (the (cell_voltages payload_1313 4)))) = Some None
   \<and> v_guess_of (py_sum (the (cell_voltages payload_1200 4))) = 1200
   \<and> (\<exists>r. decode_realtime payload_1312 4 [] = Some r
          \<and> map_of r ''bms_battery_voltage''
               = Some (VFloat (py_round_nd (py_truediv 1312 100) 2)))
   \<and> (\<exists>r. decode_realtime payload_1313 4 [] = Some r
          \<and> map_of r ''bms_battery_current'' = Some (VFloat 0))"
proof -
  obtain c2 where c2: "cell_voltages payload_1312 4 = Some c2"
    using payload_1312_cells by blast
  obtain c3 where c3: "cell_voltages payload_1313 4 = Some c3"
    using payload_1313_cells by blast
  obtain c0 where c0: "cell_voltages payload_1200 4 = Some c0"
    using payload_1200_cells by blast
  note t2 = C3_locator_window [where d = payload_1312 and p = 10 and cells = c2 and series_count = 4
      and data = "[]"]
  note t3 = C3_locator_window [where d = payload_1313 and base_start = "base_start_of payload_1313 4"
      and v_guess = 1300 and p = 10 and cells = c3 and series_count = 4 and data = "[]"]
  note t0 = C3_locator_window [where d = payload_1200 and cells = c0 and series_count = 4]
  have h2: "cell_voltages payload_1312 4 = Some c2
        \<and> cell_mv payload_1312 0 + cell_mv payload_1312 1 + cell_mv payload_1312 2
            + cell_mv payload_1312 3 = 13000"
    using c2 payload_1312_facts(1) by simp
  have n2: "\<not> in_window payload_1312 1300 j" if "base_start_of payload_1312 4 \<le> j \<and> j < 10" for j
  proof -
    have "j = 8 \<or> j = 9" using that by (auto simp add: payload_1312_facts(2))
    then show ?thesis using payload_1312_facts(5,6) by blast
  qed
  have p2: "base_start_of payload_1312 4 \<le> 10 \<and> 10 + 8 < length payload_1312
             \<and> uint (payload_1312 ! 10) + 256 * uint (payload_1312 ! (10 + 1)) = 1312
             \<and> (\<forall>j. base_start_of payload_1312 4 \<le> j \<and> j < 10 \<longrightarrow> \<not> in_window payload_1312 1300 j)"
    using n2 by (simp add: payload_1312_facts(2,3,4))
  note e2 = t2 [THEN conjunct2, THEN conjunct2, THEN conjunct2, THEN conjunct2, THEN conjunct2,
      THEN conjunct2, THEN mp, OF h2]
  have a: "find_pack_idx payload_1312 (base_start_of payload_1312 4) (v_guess_of (py_sum c2))
       = Some (Some 10)"
    by (rule e2 [THEN conjunct2, THEN conjunct1, THEN mp, OF p2])
  have h3: "cell_voltages payload_1313 4 = Some c3
        \<and> cell_mv payload_1313 0 + cell_mv payload_1313 1 + cell_mv payload_1313 2
            + cell_mv payload_1313 3 = 13000"
    using c3 payload_1313_facts(1) by simp
  note e3 = t3 [THEN conjunct2, THEN conjunct2, THEN conjunct2, THEN conjunct2, THEN conjunct2,
      THEN conjunct2, THEN mp, OF h3]
  have g3: "v_guess_of (py_sum c3) = 1300"
    by (rule e3 [THEN conjunct1])
  have w3: "\<not> in_window payload_1313 1300 10"
    unfolding t3 [THEN conjunct2, THEN conjunct2, THEN conjunct1]
    using payload_1313_facts(4) by simp
  have n3: "\<forall>j. base_start_of payload_1313 4 \<le> j \<and> j + 8 < length payload_1313
                \<longrightarrow> \<not> in_window payload_1313 1300 j"
  proof (intro allI impI)
    fix j assume "base_start_of payload_1313 4 \<le> j \<and> j + 8 < length payload_1313"
    then have "j = 8 \<or> j = 9 \<or> j = 10" by (auto simp add: payload_1313_facts(2,3))
    then show "\<not> in_window payload_1313 1300 j" using payload_1313_facts(5,6) w3 by blast
  qed
  have b: "find_pack_idx payload_1313 (base_start_of payload_1313 4) 1300 = Some None"
    by (rule t3 [THEN conjunct2, THEN conjunct1, THEN iffD2, OF n3])
  have h0: "cell_voltages payload_1200 4 = Some c0 \<and> (4 :: nat) \<le> 24"
    using c0 by simp
  note e0 = t0 [THEN conjunct2, THEN conjunct2, THEN conjunct2, THEN conjunct2, THEN conjunct2,
      THEN conjunct1, THEN mp, OF h0]
  have "\<bar>(\<Sum>i\<leftarrow>[0..<4]. cell_mv payload_1200 i) - 10 * 1200\<bar> \<le> 4"
    by (simp add: payload_1200_facts(1))
  then have c: "v_guess_of (py_sum c0) = 1200"
    by (rule e0 [THEN conjunct2, THEN conjunct1, THEN spec, THEN mp])
  have k2: "cell_voltages payload_1312 4 = Some c2 \<and> (4 :: nat) \<le> 24"
    using c2 by simp
  note f2 = t2 [THEN conjunct2, THEN conjunct2, THEN conjunct2, THEN conjunct2, THEN conjunct2,
      THEN conjunct1, THEN mp, OF k2]
  have "\<exists>r. decode_realtime payload_1312 4 [] = Some r
      \<and> map_of r ''bms_battery_voltage''
          = Some (VFloat (py_round_nd (py_truediv
              (uint (payload_1312 ! 10) + 256 * uint (payload_1312 ! (10 + 1))) 100) 2))
      \<and> map_of r ''bms_battery_current''
          = Some (VFloat (py_round_nd (py_truediv
              (if uint (payload_1312 ! (10 + 2)) + 256 * uint (payload_1312 ! (10 + 3)) > 32767
               then uint (payload_1312 ! (10 + 2)) + 256 * uint (payload_1312 ! (10 + 3)) - 65536
               else uint (payload_1312 ! (10 + 2)) + 256 * uint (payload_1312 ! (10 + 3))) 100) 2))"
    by (rule f2 [THEN conjunct2, THEN conjunct2, THEN conjunct1, THEN mp, OF a])
  moreover have "uint (payload_1312 ! 10) + 256 * uint (payload_1312 ! (10 + 1)) = 1312"
    by (simp add: payload_1312_facts(4))
  ultimately have d: "\<exists>r. decode_realtime payload_1312 4 [] = Some r
      \<and> map_of r ''bms_battery_voltage'' = Some (VFloat (py_round_nd (py_truediv 1312 100) 2))"
    by metis
  have k3: "cell_voltages payload_1313 4 = Some c3 \<and> (4 :: nat) \<le> 24"
    using c3 by simp
  note f3 = t3 [THEN conjunct2, THEN conjunct2, THEN conjunct2, THEN conjunct2, THEN conjunct2,
      THEN conjunct1, THEN mp, OF k3]
  have "find_pack_idx payload_1313 (base_start_of payload_1313 4) (v_guess_of (py_sum c3))
      = Some None"
    using b by (simp only: g3)
  then have "\<exists>r. decode_realtime payload_1313 4 [] = Some r
      \<and> map_of r ''bms_battery_voltage'' = Some (VFloat (py_round_nd (py_sum c3) 2))
      \<and> map_of r ''bms_battery_current'' = Some (VFloat 0)"
    by (rule f3 [THEN conjunct2, THEN conjunct2, THEN conjunct2, THEN mp])
  then have e: "\<exists>r. decode_realtime payload_1313 4 [] = Some r
      \<and> map_of r ''bms_battery_current'' = Some (VFloat 0)"
    by blast
  from a b c d e show ?thesis by (simp only: c2 c3 c0 g3 option.sel simp_thms)
qed


subsection \<open>State of charge and state of health\<close>

lemma v_guess_13V:
  assumes "cell_voltages d 4 = Some cells"
    and "cell_mv d 0 + cell_mv d 1 + cell_mv d 2 + cell_mv d 3 = 13000"
  shows "v_guess_of (py_sum cells) = 1300"
proof -
  have "[0..<4] = [0, 1, 2, 3]" by code_simp
  then have "\<bar>(\<Sum>i\<leftarrow>[0..<4]. cell_mv d i) - 10 * 1300\<bar> \<le> 4" using assms(2) by simp
  with assms(1) show ?thesis by (intro v_guess_cells [of d 4]) simp_all
qed

lemma located_at_10:
  assumes "cell_voltages d 4 = Some cells"
    and "cell_mv d 0 + cell_mv d 1 + cell_mv d 2 + cell_mv d 3 = 13000"
    and "base_start_of d 4 = 8" "length d = 19"
    and "\<not> in_window d 1300 8" "\<not> in_window d 1300 9" "in_window d 1300 10"
  shows "find_pack_idx d (base_start_of d 4) (v_guess_of (py_sum cells)) = Some (Some 10)"
proof -
  have "\<not> in_window d 1300 j" if "8 \<le> j \<and> j < 10" for j
  proof -
    have "j = 8 \<or> j = 9" using that by auto
    then show ?thesis using assms(5,6) by blast
  qed
  then show ?thesis
    using assms(3,4,7) by (simp add: v_guess_13V [OF assms(1,2)] find_pack_idx_hit)
qed

lemma located_nowhere:
  assumes "cell_voltages d 4 = Some cells"
    and "cell_mv d 0 + cell_mv d 1 + cell_mv d 2 + cell_mv d 3 = 13000"
    and "base_start_of d 4 = 8" "length d = 19"
    and "\<not> in_window d 1300 8" "\<not> in_window d 1300 9" "\<not> in_window d 1300 10"
  shows "find_pack_idx d (base_start_of d 4) (v_guess_of (py_sum cells)) = Some None"
proof -
  have "\<not> in_window d 1300 j" if "8 \<le> j \<and> j + 8 < 19" for j
  proof -
    have "j = 8 \<or> j = 9 \<or> j = 10" using that by auto
    then show ?thesis using assms(5,6,7) by blast
  qed
  then show ?thesis
    using assms(3,4) by (simp add: v_guess_13V [OF assms(1,2)] find_pack_idx_miss)
qed

lemma payload_soc_200_facts:
  "cell_mv payload_soc_200 0 + cell_mv payload_soc_200 1 + cell_mv payload_soc_200 2
     + cell_mv payload_soc_200 3 = 13000"
  "base_start_of payload_soc_200 4 = 8" "length payload_soc_200 = 19"
  "\<not> in_window payload_soc_200 1300 8" "\<not> in_window payload_soc_200 1300 9"
  "in_window payload_soc_200 1300 10"
  "payload_soc_200 ! 16 = 200" "soc_at payload_soc_200 16 = 0"
  by code_simp+

lemma payload_soc_0_facts:
  "cell_mv payload_soc_0 0 + cell_mv payload_soc_0 1 + cell_mv payload_soc_0 2
     + cell_mv payload_soc_0 3 = 13000"
  "base_start_of payload_soc_0 4 = 8" "length payload_soc_0 = 19"
  "\<not> in_window payload_soc_0 1300 8" "\<not> in_window payload_soc_0 1300 9"
  "in_window payload_soc_0 1300 10"
  "payload_soc_0 ! 16 = 0" "soc_at payload_soc_0 16 = 0"
  by code_simp+

lemma payload_1312_window: "in_window payload_1312 1300 10"
  "uint (payload_1312 ! 16) = 80" "uint (payload_1312 ! 17) = 100"
  by code_simp+

lemma payload_1313_window: "\<not> in_window payload_1313 1300 10"
  by code_simp

text \<open>
  C1, as stated, fails where it says that a byte out of range is reported as a sentinel
  "unknown": the decoder stores 0, which is also what a byte 0 in range gives. Both
  payloads below are located at offset 10; the byte at offset 16 is 200 in the first and 0
  in the second, and both readings have \<^verbatim>\<open>bms_battery_soc\<close> 0.
\<close>

theorem C1_sentinel_counterexample:
  "payload_soc_200 ! 16 = 200
   \<and> map_option (\<lambda>cells. find_pack_idx payload_soc_200 (base_start_of payload_soc_200 4)
                              (v_guess_of (py_sum cells)))
        (cell_voltages payload_soc_200 4) = Some (Some (Some 10))
   \<and> map_option (\<lambda>data. map_of data ''bms_battery_soc'') (decode_realtime payload_soc_200 4 [])
        = Some (Some (VInt 0))
   \<and> payload_soc_0 ! 16 = 0
   \<and> map_option (\<lambda>cells. find_pack_idx payload_soc_0 (base_start_of payload_soc_0 4)
                              (v_guess_of (py_sum cells)))
        (cell_voltages payload_soc_0 4) = Some (Some (Some 10))
   \<and> map_option (\<lambda>data. map_of data ''bms_battery_soc'') (decode_realtime payload_soc_0 4 [])
        = Some (Some (VInt 0))"
proof -
  have "cell_voltages payload_soc_200 4 \<noteq> None"
    by (rule cell_voltages_iff [THEN iffD2]) (simp add: payload_soc_200_facts(3))
  then obtain c where c: "cell_voltages payload_soc_200 4 = Some c" by blast
  note l = located_at_10 [OF c payload_soc_200_facts(1-6)]
  have a: "map_option (\<lambda>data. map_of data ''bms_battery_soc'') (decode_realtime payload_soc_200 4 [])
        = Some (Some (VInt 0))"
    by (simp add: decode_realtime_hit [OF c l] map_of_store_pack payload_soc_200_facts(8))
  have "cell_voltages payload_soc_0 4 \<noteq> None"
    by (rule cell_voltages_iff [THEN iffD2]) (simp add: payload_soc_0_facts(3))
  then obtain c' where c': "cell_voltages payload_soc_0 4 = Some c'" by blast
  note l' = located_at_10 [OF c' payload_soc_0_facts(1-6)]
  have b: "map_option (\<lambda>data. map_of data ''bms_battery_soc'') (decode_realtime payload_soc_0 4 [])
        = Some (Some (VInt 0))"
    by (simp add: decode_realtime_hit [OF c' l'] map_of_store_pack payload_soc_0_facts(8))
  show ?thesis
    using a b l l' by (simp add: c c' payload_soc_200_facts(7) payload_soc_0_facts(7))
qed

text \<open>
  C1 (amended): for every command-0x00 payload whose cells decode, when the locator finds
  the pack index \<open>p\<close>, the offsets \<open>p + 6\<close> and \<open>p + 7\<close> are within the payload, the
  reported SOC is the byte at \<open>p + 6\<close> when it is at most 100 and the integer 0 otherwise,
  and the reported SOH is the byte at \<open>p + 7\<close> under the same rule; when the locator finds
  nothing, SOC and SOH are both the integer 0.
\<close>

theorem C1_soc_soh:
  assumes "cell_voltages d series_count = Some cells"
  shows "(find_pack_idx d (base_start_of d series_count) (v_guess_of (py_sum cells)) = Some (Some p) \<longrightarrow>
           (\<exists>data'. decode_realtime d series_count data = Some data'
              \<and> p + 7 < length d
              \<and> map_of data' ''bms_battery_soc''
                   = Some (VInt (if uint (d ! (p + 6)) \<le> 100 then uint (d ! (p + 6)) else 0))
              \<and> map_of data' ''bms_battery_soh''
                   = Some (VInt (if uint (d ! (p + 7)) \<le> 100 then uint (d ! (p + 7)) else 0))))
       \<and> (find_pack_idx d (base_start_of d series_count) (v_guess_of (py_sum cells)) = Some None \<longrightarrow>
           (\<exists>data'. decode_realtime d series_count data = Some data'
              \<and> map_of data' ''bms_battery_soc'' = Some (VInt 0)
              \<and> map_of data' ''bms_battery_soh'' = Some (VInt 0)))"
proof (intro conjI impI)
  assume h: "find_pack_idx d (base_start_of d series_count) (v_guess_of (py_sum cells)) = Some (Some p)"
  then have p: "p + 8 < length d" by (simp add: find_pack_idx_hit)
  then have s: "soc_at d (p + 6) = (if uint (d ! (p + 6)) \<le> 100 then uint (d ! (p + 6)) else 0)"
    "soc_at d (p + 7) = (if uint (d ! (p + 7)) \<le> 100 then uint (d ! (p + 7)) else 0)"
    by (simp_all add: soc_at_eq)
  show "\<exists>data'. decode_realtime d series_count data = Some data'
              \<and> p + 7 < length d
              \<and> map_of data' ''bms_battery_soc''
                   = Some (VInt (if uint (d ! (p + 6)) \<le> 100 then uint (d ! (p + 6)) else 0))
              \<and> map_of data' ''bms_battery_soh''
                   = Some (VInt (if uint (d ! (p + 7)) \<le> 100 then uint (d ! (p + 7)) else 0))"
    using p by (simp add: decode_realtime_hit [OF assms h] map_of_store_pack s)
next
  assume m: "find_pack_idx d (base_start_of d series_count) (v_guess_of (py_sum cells)) = Some None"
  show "\<exists>data'. decode_realtime d series_count data = Some data'
              \<and> map_of data' ''bms_battery_soc'' = Some (VInt 0)
              \<and> map_of data' ''bms_battery_soh'' = Some (VInt 0)"
    by (simp add: decode_realtime_miss [OF assms m] map_of_store_pack)
qed

theorem C1_soc_soh_witness:
  "map_option (\<lambda>data. (map_of data ''bms_battery_soc'', map_of data ''bms_battery_soh''))
        (decode_realtime payload_1312 4 []) = Some (Some (VInt 80), Some (VInt 100))
   \<and> map_option (\<lambda>data. (map_of data ''bms_battery_soc'', map_of data ''bms_battery_soh''))
        (decode_realtime payload_1313 4 []) = Some (Some (VInt 0), Some (VInt 0))"
proof -
  obtain c where c: "cell_voltages payload_1312 4 = Some c"
    using payload_1312_cells by blast
  note l = located_at_10 [OF c payload_1312_facts(1-3,5,6) payload_1312_window(1)]
  obtain data' where d: "decode_realtime payload_1312 4 [] = Some data'"
      "map_of data' ''bms_battery_soc''
         = Some (VInt (if uint (payload_1312 ! (10 + 6)) \<le> 100 then uint (payload_1312 ! (10 + 6)) else 0))"
      "map_of data' ''bms_battery_soh''
         = Some (VInt (if uint (payload_1312 ! (10 + 7)) \<le> 100 then uint (payload_1312 ! (10 + 7)) else 0))"
    using C1_soc_soh [OF c, of 10 "[]"] l by blast
  have a: "map_option (\<lambda>data. (map_of data ''bms_battery_soc'', map_of data ''bms_battery_soh''))
        (decode_realtime payload_1312 4 []) = Some (Some (VInt 80), Some (VInt 100))"
    using d by (simp add: payload_1312_window(2,3))
  obtain c' where c': "cell_voltages payload_1313 4 = Some c'"
    using payload_1313_cells by blast
  note m = located_nowhere [OF c' payload_1313_facts(1-3,5,6) payload_1313_window]
  obtain data'' where d': "decode_realtime payload_1313 4 [] = Some data''"
      "map_of data'' ''bms_battery_soc'' = Some (VInt 0)"
      "map_of data'' ''bms_battery_soh'' = Some (VInt 0)"
    using C1_soc_soh [OF c', of 0 "[]"] m by blast
  have b: "map_option (\<lambda>data. (map_of data ''bms_battery_soc'', map_of data ''bms_battery_soh''))
        (decode_realtime payload_1313 4 []) = Some (Some (VInt 0), Some (VInt 0))"
    using d' by simp
  from a b show ?thesis ..
qed

subsection \<open>What the readers write and return\<close>

subsection \<open>What the readers write\<close>

lemma read_registers_tx:
  "read_registers s slave_id start_address count function_code = (res, s') \<Longrightarrow>
     tx_log s' = tx_log s @ [build_request slave_id start_address (int count) function_code]"
  by (auto simp add: read_registers_def serial_read_def serial_write_def Let_def
        split: prod.splits list.splits)

lemma drain_tx: "drain n s rx = (rx', s') \<Longrightarrow> tx_log s' = tx_log s"
proof (induction n arbitrary: s rx)
  case 0
  then show ?case by simp
next
  case (Suc n)
  then show ?case
    by (auto simp add: serial_read_waiting_def split: prod.splits list.splits if_splits)
qed

lemma bms_send_tx:
  assumes "bms_send s cmd = (rx, s')"
  shows "tx_log s' = tx_log s @ [bms_frame cmd 0x01 []]"
proof -
  obtain rx1 s2 where r: "serial_read_waiting (serial_write s (bms_frame cmd 0x01 [])) = (rx1, s2)"
    by (cases "serial_read_waiting (serial_write s (bms_frame cmd 0x01 []))")
  obtain rx2 s3 where d: "drain 3 s2 rx1 = (rx2, s3)"
    by (cases "drain 3 s2 rx1")
  have "s' = s3" using assms by (simp add: bms_send_def Let_def r d split: if_splits)
  moreover have "tx_log s3 = tx_log s2" using d by (rule drain_tx)
  moreover have "tx_log s2 = tx_log s @ [bms_frame cmd 0x01 []]"
    using r by (auto simp add: serial_read_waiting_def serial_write_def split: list.splits)
  ultimately show ?thesis by simp
qed



lemma nonempty_or_none_Some: "nonempty_or_none d = Some data \<Longrightarrow> data = d"
  by (simp add: nonempty_or_none_def split: if_splits)



lemma read_pir_data_shape:
  assumes "read_pir_data s = (reading, s')"
  shows "tx_log s' = tx_log s @ pir_requests \<and> (\<forall>data. reading = Some data \<longrightarrow> keys_distinct data)"
proof -
  obtain r1 s1 where r1: "read_registers s 0x02 0x0000 1 0x03 = (r1, s1)"
    by (cases "read_registers s 0x02 0x0000 1 0x03")
  have e: "read_pir_data s
      = (nonempty_or_none (store_if (truthy r1) [] ''pir_motion_detected''
           (VBool (regs r1 ! 0 \<noteq> 0))), s1)"
    unfolding read_pir_data_def Let_def r1 prod.case store_if_def ..
  have "tx_log s1 = tx_log s @ pir_requests"
    using read_registers_tx [OF r1] by (simp add: pir_requests_def)
  then show ?thesis
    using assms unfolding e
    by (auto dest!: nonempty_or_none_Some intro: keys_distinct_store_if keys_distinct_Nil)
qed

lemma unat_range: "1 \<le> uint b \<and> uint b \<le> 24 \<Longrightarrow> 1 \<le> unat b \<and> unat b \<le> 24" for b :: byte
proof -
  assume a: "1 \<le> uint b \<and> uint b \<le> 24"
  have "unat b = nat (uint b)" by (rule unat_eq_nat_uint)
  with a show ?thesis by arith
qed

lemma read_series_count_range:
  assumes "read_series_count rx = Some series_count"
  shows "1 \<le> series_count \<and> series_count \<le> 24"
proof (cases rx)
  case None
  then show ?thesis using assms by (simp add: read_series_count_def)
next
  case (Some r)
  show ?thesis
  proof (cases "length r > 6")
    case False
    then show ?thesis using assms by (simp add: read_series_count_def Some)
  next
    case True
    define b where "b = last (butlast (drop 6 r))"
    have "read_series_count rx
            = (if butlast (drop 6 r) = [] then None
               else Some (if 1 \<le> uint b \<and> uint b \<le> 24 then unat b else 4))"
      using True by (simp add: read_series_count_def Some Let_def b_def)
    with assms have "series_count = (if 1 \<le> uint b \<and> uint b \<le> 24 then unat b else 4)"
      by (cases "butlast (drop 6 r) = []") simp_all
    then show ?thesis using unat_range [of b] by (cases "1 \<le> uint b \<and> uint b \<le> 24") simp_all
  qed
qed

lemma butlast_drop6_empty:
  "length r > 6 \<Longrightarrow> butlast (drop 6 r) = [] \<longleftrightarrow> length r = 7" for r :: "byte list"
proof -
  assume a: "length r > 6"
  have "butlast (drop 6 r) = [] \<longleftrightarrow> length (butlast (drop 6 r)) = 0"
    by (simp only: length_0_conv)
  also have "\<dots> \<longleftrightarrow> length r - 7 = 0" by simp
  also have "\<dots> \<longleftrightarrow> length r = 7" using a by arith
  finally show ?thesis .
qed

lemma read_series_count_None:
  "read_series_count rx = None \<longleftrightarrow> (\<exists>r. rx = Some r \<and> length r = 7)"
proof (cases rx)
  case None
  then show ?thesis by (simp add: read_series_count_def)
next
  case (Some r)
  show ?thesis
  proof (cases "length r > 6")
    case True
    then show ?thesis
      using butlast_drop6_empty [OF True] by (simp add: read_series_count_def Some Let_def)
  next
    case False
    then show ?thesis by (simp add: read_series_count_def Some)
  qed
qed


lemma read_mos_shape:
  assumes "read_mos s cmd key data = (data', s')"
  shows "tx_log s' = tx_log s @ [bms_frame cmd 0x01 []]
       \<and> (\<exists>state. data' = dict_set data key (VStr state))
       \<and> (fst (bms_send s cmd) = None \<longrightarrow> data' = dict_set data key (VStr ''UNKNOWN''))"
proof -
  obtain rx s1 where b: "bms_send s cmd = (rx, s1)" by (cases "bms_send s cmd")
  have tx: "tx_log s1 = tx_log s @ [bms_frame cmd 0x01 []]" using b by (rule bms_send_tx)
  show ?thesis
  proof (cases rx)
    case None
    then show ?thesis using assms tx by (auto simp add: read_mos_def b)
  next
    case (Some r)
    then show ?thesis using assms tx by (auto simp add: read_mos_def b split: if_splits)
  qed
qed

lemma keys_distinct_store_pack:
  "keys_distinct data \<Longrightarrow> keys_distinct (store_pack data cells summary)"
  by (cases summary) (simp add: store_pack_def keys_distinct_dict_set)

lemma decode_realtime_Some:
  assumes "decode_realtime d series_count data = Some data'"
  shows "\<exists>cells summary. cell_voltages d series_count = Some cells
           \<and> data' = store_pack data cells summary"
proof (cases "cell_voltages d series_count")
  case None
  then show ?thesis using assms by (simp add: decode_realtime_def)
next
  case (Some cells)
  then show ?thesis using decode_realtime_total [OF Some, of data] assms by auto
qed

lemma read_realtime_keys:
  assumes "read_realtime rx series_count data = Some data'" "keys_distinct data"
  shows "keys_distinct data'"
proof (cases "\<exists>r. rx = Some r \<and> length r > 20")
  case True
  then obtain r where r: "rx = Some r" "length r > 20" by blast
  then have "decode_realtime (tl (butlast (drop 6 r))) series_count data = Some data'"
    using assms(1) by (simp add: read_realtime_def)
  then show ?thesis
    using decode_realtime_Some keys_distinct_store_pack [OF assms(2)] by blast
next
  case False
  then have "data' = data"
    using assms(1) by (cases rx) (auto simp add: read_realtime_def split: if_splits)
  then show ?thesis using assms(2) by simp
qed

lemma read_bms_data_raise_count:
  assumes "bms_send s 0x27 = (rx27, s1)" "read_series_count rx27 = None"
  shows "read_bms_data s = (None, s1)"
  using assms by (simp add: read_bms_data_def)

lemma read_bms_data_raise_realtime:
  assumes "bms_send s 0x27 = (rx27, s1)" "read_series_count rx27 = Some series_count"
    and "bms_send s1 0x00 = (rx00, s2)" "read_realtime rx00 series_count [] = None"
  shows "read_bms_data s = (None, s2)"
  using assms by (simp add: read_bms_data_def)

lemma read_bms_data_return:
  assumes "bms_send s 0x27 = (rx27, s1)" "read_series_count rx27 = Some series_count"
    and "bms_send s1 0x00 = (rx00, s2)" "read_realtime rx00 series_count [] = Some data"
    and "read_mos s2 0x2D ''bms_discharge_mos_status'' data = (data1, s3)"
    and "read_mos s3 0x2E ''bms_charge_mos_status'' data1 = (data2, s4)"
  shows "read_bms_data s = (Some data2, s4)"
  using assms by (simp add: read_bms_data_def)

lemma read_bms_data_shape:
  assumes "read_bms_data s = (reading, s')"
  shows "(reading = None \<longrightarrow>
            tx_log s' = tx_log s @ take 1 bms_requests \<or> tx_log s' = tx_log s @ take 2 bms_requests)
       \<and> (\<forall>data. reading = Some data \<longrightarrow>
            tx_log s' = tx_log s @ bms_requests \<and> keys_distinct data
            \<and> map_of data ''bms_discharge_mos_status'' \<noteq> None
            \<and> map_of data ''bms_charge_mos_status'' \<noteq> None)"
proof -
  obtain rx27 s1 where a: "bms_send s 0x27 = (rx27, s1)" by (cases "bms_send s 0x27")
  have t1: "tx_log s1 = tx_log s @ [bms_frame 0x27 0x01 []]" using a by (rule bms_send_tx)
  show ?thesis
  proof (cases "read_series_count rx27")
    case None
    have "read_bms_data s = (None, s1)" using a None by (rule read_bms_data_raise_count)
    then show ?thesis using assms t1 by (simp add: bms_requests_def)
  next
    case (Some series_count)
    obtain rx00 s2 where b: "bms_send s1 0x00 = (rx00, s2)" by (cases "bms_send s1 0x00")
    have t2: "tx_log s2 = tx_log s1 @ [bms_frame 0x00 0x01 []]" using b by (rule bms_send_tx)
    show ?thesis
    proof (cases "read_realtime rx00 series_count []")
      case None
      have "read_bms_data s = (None, s2)"
        using a Some b None by (rule read_bms_data_raise_realtime)
      then show ?thesis using assms t1 t2 by (simp add: bms_requests_def)
    next
      case (Some data)
      obtain data1 s3 where c: "read_mos s2 0x2D ''bms_discharge_mos_status'' data = (data1, s3)"
        by (cases "read_mos s2 0x2D ''bms_discharge_mos_status'' data")
      obtain data2 s4 where d: "read_mos s3 0x2E ''bms_charge_mos_status'' data1 = (data2, s4)"
        by (cases "read_mos s3 0x2E ''bms_charge_mos_status'' data1")
      have r: "read_bms_data s = (Some data2, s4)"
        using a \<open>read_series_count rx27 = Some series_count\<close> b Some c d
        by (rule read_bms_data_return)
      note m1 = read_mos_shape [OF c] and m2 = read_mos_shape [OF d]
      obtain st1 where st1: "data1 = dict_set data ''bms_discharge_mos_status'' (VStr st1)"
        using m1 by blast
      obtain st2 where st2: "data2 = dict_set data1 ''bms_charge_mos_status'' (VStr st2)"
        using m2 by blast
      have k: "keys_distinct data2"
        unfolding st1 st2
        by (intro keys_distinct_dict_set read_realtime_keys [OF Some] keys_distinct_Nil)
      have tx: "tx_log s4 = tx_log s @ bms_requests"
        using t1 t2 m1 m2 by (simp add: bms_requests_def)
      have "map_of data2 ''bms_discharge_mos_status'' \<noteq> None"
        "map_of data2 ''bms_charge_mos_status'' \<noteq> None"
        by (simp_all add: st1 st2 map_of_dict_set)
      moreover have "reading = Some data2" "s' = s4" using assms r by simp_all
      ultimately show ?thesis using k tx by auto
    qed
  qed
qed

lemma map_of_merge_reading:
  assumes "\<forall>data. reading = Some data \<longrightarrow> keys_distinct data"
  shows "map_of (merge_reading results reading) = map_of results ++ reading_map reading"
proof (cases reading)
  case None
  then show ?thesis by (simp add: merge_reading_def reading_map_def)
next
  case (Some data)
  then show ?thesis
    using assms by (cases "data = []") (simp_all add: merge_reading_def reading_map_def map_of_dict_update)
qed

lemma read_all_devices_unfold:
  assumes "read_mppt_data s = (mppt_data, s1)" "read_env_data s1 = (env_data, s2)"
    and "read_ldr_data s2 = (ldr_data, s3)" "read_bms_data s3 = (bms_data, s4)"
    and "read_pir_data s4 = (pir_data, s5)"
  shows "read_all_devices s
     = (merge_reading (merge_reading (merge_reading (merge_reading (merge_reading []
          mppt_data) env_data) ldr_data) bms_data) pir_data, s5)"
  unfolding read_all_devices_def Let_def assms prod.case ..

lemma bms_send_Some:
  assumes "bms_send s cmd = (Some r, s')"
  shows "checksum_ok r \<and> r \<noteq> []"
  using assms
  by (auto simp add: bms_send_def Let_def split: prod.splits if_splits)

lemma read_bms_data_realtime:
  assumes "bms_send s 0x27 = (rx27, s1)" "read_series_count rx27 = Some series_count"
    and "bms_send s1 0x00 = (rx00, s2)" "read_realtime rx00 series_count [] = Some data"
  shows "\<exists>st1 st2 s'. read_bms_data s
     = (Some (dict_set (dict_set data ''bms_discharge_mos_status'' (VStr st1))
                ''bms_charge_mos_status'' (VStr st2)), s')"
proof -
  obtain data1 s3 where c: "read_mos s2 0x2D ''bms_discharge_mos_status'' data = (data1, s3)"
    by (cases "read_mos s2 0x2D ''bms_discharge_mos_status'' data")
  obtain data2 s4 where d: "read_mos s3 0x2E ''bms_charge_mos_status'' data1 = (data2, s4)"
    by (cases "read_mos s3 0x2E ''bms_charge_mos_status'' data1")
  have "read_bms_data s = (Some data2, s4)"
    using assms c d by (rule read_bms_data_return)
  moreover obtain st1 where "data1 = dict_set data ''bms_discharge_mos_status'' (VStr st1)"
    using read_mos_shape [OF c] by blast
  moreover obtain st2 where "data2 = dict_set data1 ''bms_charge_mos_status'' (VStr st2)"
    using read_mos_shape [OF d] by blast
  ultimately show ?thesis by blast
qed

lemma cell_or_zero_nth:
  "cell_or_zero (map f [0..<n]) k = VFloat (if k < n then f k else 0)"
  by (simp add: cell_or_zero_def)

lemma payload_length:
  "length r > 20 \<Longrightarrow> length (tl (butlast (drop 6 r))) = length r - 8"
  by simp

lemma round2_sum_nearest:
  assumes "\<forall>n\<in>set ns. 0 \<le> n \<and> n < 65536" "length ns \<le> 24"
    and "\<bar>sum_list ns - 10 * k\<bar> \<le> 4"
  shows "py_round_nd (py_sum (map (\<lambda>n. py_truediv n 1000) ns)) 2 = py_truediv k 100"
proof -
  define T where "T = py_sum (map (\<lambda>n. py_truediv n 1000) ns)"
  define S :: rat where "S = of_int (sum_list ns)"
  have T: "\<bar>T - S / 1000\<bar> \<le> 24 * (2048 * ulp53)"
    unfolding T_def S_def using assms(1,2) by (rule py_sum_err)
  have e1: "\<bar>T * 100 - S / 10\<bar> \<le> 2400 * (2048 * ulp53)"
    using T by (simp add: abs_if split: if_splits)
  have "\<bar>(of_int (sum_list ns - 10 * k) :: rat)\<bar> \<le> 4"
    using assms(3) by (metis of_int_abs of_int_le_numeral_iff)
  then have "\<bar>S / 10 - of_int k\<bar> \<le> 4 / 10" by (simp add: S_def abs_if split: if_splits)
  with e1 have "\<bar>T * 100 - of_int k\<bar> \<le> 4 / 10 + 2400 * (2048 * ulp53)"
    by linarith
  also have "\<dots> < 1 / 2" using ulp53_small by simp
  finally have "rhe (T * 100) = k" by (rule rhe_near)
  then show ?thesis by (simp add: py_round_nd_def py_truediv_def T_def)
qed

lemma round2_cells:
  assumes "cell_voltages d series_count = Some cells" "series_count \<le> 24"
    and "\<bar>(\<Sum>i\<leftarrow>[0..<series_count]. cell_mv d i) - 10 * k\<bar> \<le> 4"
  shows "py_round_nd (py_sum cells) 2 = py_truediv k 100"
proof -
  have "2 * series_count \<le> length d" using assms(1) cell_voltages_iff by blast
  then have "cells = map (\<lambda>n. py_truediv n 1000) (map (cell_mv d) [0..<series_count])"
    using assms(1) by (simp add: cell_voltages_Some comp_def)
  moreover have "py_round_nd (py_sum (map (\<lambda>n. py_truediv n 1000)
      (map (cell_mv d) [0..<series_count]))) 2 = py_truediv k 100"
  proof (rule round2_sum_nearest)
    show "\<forall>n\<in>set (map (cell_mv d) [0..<series_count]). 0 \<le> n \<and> n < 65536"
      using cell_mv_range by auto
    show "length (map (cell_mv d) [0..<series_count]) \<le> 24" using assms(2) by simp
    show "\<bar>sum_list (map (cell_mv d) [0..<series_count]) - 10 * k\<bar> \<le> 4" using assms(3) by simp
  qed
  ultimately show ?thesis by simp
qed

lemma fl_zero: "fl 0 = 0"
  by (simp add: fl_def)

lemma rhe_zero: "rhe 0 = 0"
  by (simp add: rhe_def)

lemma zero_power: "py_round_nd (py_mul x 0) 2 = 0"
  by (simp add: py_round_nd_def py_mul_def fl_zero rhe_zero)

lemma read_pir_data_keys:
  assumes "read_pir_data s = (reading, s')" "k \<noteq> ''pir_motion_detected''"
  shows "reading_map reading k = None"
proof -
  obtain r1 s1 where r1: "read_registers s 0x02 0x0000 1 0x03 = (r1, s1)"
    by (cases "read_registers s 0x02 0x0000 1 0x03")
  have e: "read_pir_data s
      = (nonempty_or_none (store_if (truthy r1) [] ''pir_motion_detected''
           (VBool (regs r1 ! 0 \<noteq> 0))), s1)"
    unfolding read_pir_data_def Let_def r1 prod.case store_if_def ..
  show ?thesis
  proof (cases reading)
    case None
    then show ?thesis by (simp add: reading_map_def)
  next
    case (Some data)
    then have "data = store_if (truthy r1) [] ''pir_motion_detected'' (VBool (regs r1 ! 0 \<noteq> 0))"
      using assms(1) unfolding e by (auto dest: nonempty_or_none_Some)
    then show ?thesis using assms(2) by (simp add: reading_map_def Some map_of_store_if)
  qed
qed

lemma bms_bus_miss_facts:
  "fst (bms_send bms_bus_miss 0x27) = Some rx_count_4"
  "fst (bms_send (snd (bms_send bms_bus_miss 0x27)) 0x00) = Some rx_realtime_1313"
  "read_series_count (Some rx_count_4) = Some 4"
  "length rx_realtime_1313 = 27"
  "tl (butlast (drop 6 rx_realtime_1313)) = payload_1313"
  "cell_mv payload_1313 0 = 3200"
  by code_simp+

lemma bms_bus_truncated_facts:
  "fst (bms_send bms_bus_truncated 0x27) = Some rx_count_24"
  "fst (bms_send (snd (bms_send bms_bus_truncated 0x27)) 0x00) = Some rx_realtime_short"
  "read_series_count (Some rx_count_24) = Some 24"
  "length rx_realtime_short = 21"
  "checksum_ok rx_realtime_short"
  by code_simp+

lemma float_examples: "py_truediv 1300 100 = 13"
  by code_simp

subsection \<open>Truncated responses\<close>

text \<open>
  C2, as stated, fails for a truncated response: the BMS announces 24 cells, its next
  response has 21 bytes and a right checksum, so the payload has 13 bytes; reading the
  seventh cell raises \<^verbatim>\<open>IndexError\<close>, which \<^verbatim>\<open>read_bms_data\<close> catches, and the whole
  read returns \<^verbatim>\<open>None\<close>.
\<close>

theorem C2_truncated_counterexample:
  "checksum_ok rx_realtime_short \<and> length rx_realtime_short = 21
   \<and> read_series_count (fst (bms_send bms_bus_truncated 0x27)) = Some 24
   \<and> fst (bms_send (snd (bms_send bms_bus_truncated 0x27)) 0x00) = Some rx_realtime_short
   \<and> fst (read_bms_data bms_bus_truncated) = None"
proof -
  let ?s1 = "snd (bms_send bms_bus_truncated 0x27)"
  let ?s2 = "snd (bms_send ?s1 0x00)"
  have a: "bms_send bms_bus_truncated 0x27 = (Some rx_count_24, ?s1)"
    using bms_bus_truncated_facts(1) by (simp add: prod_eq_iff)
  have b: "bms_send ?s1 0x00 = (Some rx_realtime_short, ?s2)"
    using bms_bus_truncated_facts(2) by (simp add: prod_eq_iff)
  have "length (tl (butlast (drop 6 rx_realtime_short))) < 2 * 24"
    by (simp add: bms_bus_truncated_facts(4))
  then have "read_realtime (Some rx_realtime_short) 24 [] = None"
    by (simp add: read_realtime_def bms_bus_truncated_facts(4) decode_realtime_None)
  with a bms_bus_truncated_facts(3) b have "read_bms_data bms_bus_truncated = (None, ?s2)"
    by (rule read_bms_data_raise_realtime)
  then show ?thesis
    by (simp add: bms_bus_truncated_facts)
qed

text \<open>
  C2 (amended): for every command-0x00 response that passes the checksum and the guard on
  its length, with the payload \<open>d\<close> of \<open>len - 8\<close> bytes: when \<open>d\<close> holds fewer than
  \<open>2 * seriesCount\<close> bytes the BMS read raises and returns no reading; when it holds at
  least that many (always so for \<open>seriesCount \<le> 6\<close>) the read returns a reading in which
  each of the four reported cell voltages is that cell's millivolts divided by 1000 when the
  cell exists and 0.0 when its number is beyond \<open>seriesCount\<close>, and in which the five pack
  fields are present.
\<close>

theorem C2_truncated_response:
  assumes "bms_send s 0x27 = (rx27, s1)" "read_series_count rx27 = Some series_count"
    and "bms_send s1 0x00 = (Some r, s2)" "length r > 20"
    and "d = tl (butlast (drop 6 r))"
  shows "checksum_ok r \<and> length d = length r - 8 \<and> 1 \<le> series_count \<and> series_count \<le> 24
       \<and> (length d < 2 * series_count \<longrightarrow> read_bms_data s = (None, s2))
       \<and> (2 * series_count \<le> length d \<longrightarrow>
            (\<exists>data s'. read_bms_data s = (Some data, s')
               \<and> map_of data ''bms_cell_1_voltage''
                    = Some (VFloat (py_truediv (cell_mv d 0) 1000))
               \<and> map_of data ''bms_cell_2_voltage''
                    = Some (VFloat (if 1 < series_count then py_truediv (cell_mv d 1) 1000 else 0))
               \<and> map_of data ''bms_cell_3_voltage''
                    = Some (VFloat (if 2 < series_count then py_truediv (cell_mv d 2) 1000 else 0))
               \<and> map_of data ''bms_cell_4_voltage''
                    = Some (VFloat (if 3 < series_count then py_truediv (cell_mv d 3) 1000 else 0))
               \<and> map_of data ''bms_battery_voltage'' \<noteq> None
               \<and> map_of data ''bms_battery_current'' \<noteq> None
               \<and> map_of data ''bms_battery_soc'' \<noteq> None
               \<and> map_of data ''bms_battery_soh'' \<noteq> None
               \<and> map_of data ''bms_battery_power'' \<noteq> None))
       \<and> (series_count \<le> 6 \<longrightarrow> 2 * series_count \<le> length d)"
proof -
  have c: "checksum_ok r" using bms_send_Some [OF assms(3)] by simp
  have l: "length d = length r - 8" unfolding assms(5) using assms(4) by (rule payload_length)
  have sc: "1 \<le> series_count \<and> series_count \<le> 24"
    using assms(2) by (rule read_series_count_range)
  have rt: "read_realtime (Some r) series_count [] = decode_realtime d series_count []"
    using assms(4) by (simp add: read_realtime_def assms(5))
  have short: "read_bms_data s = (None, s2)" if "length d < 2 * series_count"
  proof -
    have "read_realtime (Some r) series_count [] = None"
      using that by (simp add: rt decode_realtime_None)
    with assms(1,2,3) show ?thesis by (rule read_bms_data_raise_realtime)
  qed
  have long: "\<exists>data s'. read_bms_data s = (Some data, s')
               \<and> map_of data ''bms_cell_1_voltage''
                    = Some (VFloat (py_truediv (cell_mv d 0) 1000))
               \<and> map_of data ''bms_cell_2_voltage''
                    = Some (VFloat (if 1 < series_count then py_truediv (cell_mv d 1) 1000 else 0))
               \<and> map_of data ''bms_cell_3_voltage''
                    = Some (VFloat (if 2 < series_count then py_truediv (cell_mv d 2) 1000 else 0))
               \<and> map_of data ''bms_cell_4_voltage''
                    = Some (VFloat (if 3 < series_count then py_truediv (cell_mv d 3) 1000 else 0))
               \<and> map_of data ''bms_battery_voltage'' \<noteq> None
               \<and> map_of data ''bms_battery_current'' \<noteq> None
               \<and> map_of data ''bms_battery_soc'' \<noteq> None
               \<and> map_of data ''bms_battery_soh'' \<noteq> None
               \<and> map_of data ''bms_battery_power'' \<noteq> None"
    if "2 * series_count \<le> length d"
  proof -
    define cells where "cells = map (\<lambda>i. py_truediv (cell_mv d i) 1000) [0..<series_count]"
    have cv: "cell_voltages d series_count = Some cells"
      unfolding cells_def using that by (rule cell_voltages_Some)
    obtain summary where dr: "decode_realtime d series_count [] = Some (store_pack [] cells summary)"
      using decode_realtime_total [OF cv] by blast
    obtain vpack ipack soc soh where su: "summary = (vpack, ipack, soc, soh)"
      by (cases summary)
    obtain st1 st2 s' where rb: "read_bms_data s
       = (Some (dict_set (dict_set (store_pack [] cells summary)
            ''bms_discharge_mos_status'' (VStr st1)) ''bms_charge_mos_status'' (VStr st2)), s')"
      using read_bms_data_realtime [OF assms(1,2,3)] rt dr by (metis (no_types))
    have pos: "0 < series_count" using sc by simp
    show ?thesis
      unfolding rb su
      by (intro exI conjI, rule refl)
         (simp_all add: map_of_dict_set map_of_store_pack cells_def cell_or_zero_nth pos)
  qed
  have six: "2 * series_count \<le> length d" if "series_count \<le> 6"
    using that l assms(4) by simp
  from c l sc short long six show ?thesis by blast
qed

theorem C2_truncated_response_witness:
  "fst (read_bms_data bms_bus_truncated) = None
   \<and> map_option (\<lambda>data. map_of data ''bms_cell_1_voltage'') (fst (read_bms_data bms_bus_miss))
       = Some (Some (VFloat (py_truediv 3200 1000)))"
proof -
  let ?s1 = "snd (bms_send bms_bus_truncated 0x27)"
  let ?s2 = "snd (bms_send ?s1 0x00)"
  have a: "bms_send bms_bus_truncated 0x27 = (Some rx_count_24, ?s1)"
    using bms_bus_truncated_facts(1) by (simp add: prod_eq_iff)
  have b: "bms_send ?s1 0x00 = (Some rx_realtime_short, ?s2)"
    using bms_bus_truncated_facts(2) by (simp add: prod_eq_iff)
  have l: "length rx_realtime_short > 20" by (simp add: bms_bus_truncated_facts(4))
  note t = C2_truncated_response [OF a bms_bus_truncated_facts(3) b l refl]
  have "length (tl (butlast (drop 6 rx_realtime_short))) < 2 * 24"
    by (simp add: bms_bus_truncated_facts(4))
  with t have "read_bms_data bms_bus_truncated = (None, ?s2)" by blast
  then have x: "fst (read_bms_data bms_bus_truncated) = None" by simp
  let ?m1 = "snd (bms_send bms_bus_miss 0x27)"
  let ?m2 = "snd (bms_send ?m1 0x00)"
  have a': "bms_send bms_bus_miss 0x27 = (Some rx_count_4, ?m1)"
    using bms_bus_miss_facts(1) by (simp add: prod_eq_iff)
  have b': "bms_send ?m1 0x00 = (Some rx_realtime_1313, ?m2)"
    using bms_bus_miss_facts(2) by (simp add: prod_eq_iff)
  have l': "length rx_realtime_1313 > 20" by (simp add: bms_bus_miss_facts(4))
  note t' = C2_truncated_response [OF a' bms_bus_miss_facts(3) b' l' bms_bus_miss_facts(5) [symmetric]]
  have "2 * 4 \<le> length payload_1313" by (simp add: payload_1313_facts(3))
  with t' obtain data s' where "read_bms_data bms_bus_miss = (Some data, s')"
    "map_of data ''bms_cell_1_voltage'' = Some (VFloat (py_truediv (cell_mv payload_1313 0) 1000))"
    by blast
  then have y: "map_option (\<lambda>data. map_of data ''bms_cell_1_voltage'') (fst (read_bms_data bms_bus_miss))
       = Some (Some (VFloat (py_truediv 3200 1000)))"
    by (simp add: bms_bus_miss_facts(6))
  from x y show ?thesis ..
qed

subsection \<open>The fallback of the locator\<close>

text \<open>
  C5: when the cells of a command-0x00 payload decode and no offset matches the window,
  the BMS read returns a reading: the pack voltage is the sum of the cell voltages rounded
  to two decimals (the float nearest to \<open>k / 100\<close> when the millivolts sum to within 4 of
  \<open>10 * k\<close>), the pack current is 0.0, and the pack power is the product of the two rounded
  to two decimals, which is 0.0; and the aggregate of a poll cycle that reaches this BMS
  read holds the same three values.
\<close>

theorem C5_locator_miss_fallback:
  assumes "bms_send s 0x27 = (rx27, s1)" "read_series_count rx27 = Some series_count"
    and "bms_send s1 0x00 = (Some r, s2)" "length r > 20"
    and "d = tl (butlast (drop 6 r))"
    and "cell_voltages d series_count = Some cells"
    and "find_pack_idx d (base_start_of d series_count) (v_guess_of (py_sum cells)) = Some None"
  shows "\<exists>data s'. read_bms_data s = (Some data, s')
       \<and> map_of data ''bms_battery_voltage'' = Some (VFloat (py_round_nd (py_sum cells) 2))
       \<and> map_of data ''bms_battery_current'' = Some (VFloat 0)
       \<and> map_of data ''bms_battery_power''
            = Some (VFloat (py_round_nd (py_mul (py_round_nd (py_sum cells) 2) 0) 2))
       \<and> py_round_nd (py_mul (py_round_nd (py_sum cells) 2) 0) 2 = 0
       \<and> (\<forall>k. \<bar>(\<Sum>i\<leftarrow>[0..<series_count]. cell_mv d i) - 10 * k\<bar> \<le> 4 \<longrightarrow>
              py_round_nd (py_sum cells) 2 = py_truediv k 100)
       \<and> (\<forall>s0 mppt_data sa env_data sb ldr_data.
              read_mppt_data s0 = (mppt_data, sa) \<and> read_env_data sa = (env_data, sb)
              \<and> read_ldr_data sb = (ldr_data, s) \<longrightarrow>
              map_of (fst (read_all_devices s0)) ''bms_battery_voltage''
                = Some (VFloat (py_round_nd (py_sum cells) 2))
              \<and> map_of (fst (read_all_devices s0)) ''bms_battery_current'' = Some (VFloat 0)
              \<and> map_of (fst (read_all_devices s0)) ''bms_battery_power'' = Some (VFloat 0))"
proof -
  have rt: "read_realtime (Some r) series_count []
      = Some (store_pack [] cells (py_round_nd (py_sum cells) 2, 0, 0, 0))"
    using assms(4) decode_realtime_miss [OF assms(6,7)]
    by (simp add: read_realtime_def assms(5) [symmetric])
  obtain st1 st2 s' where rb: "read_bms_data s
       = (Some (dict_set (dict_set (store_pack [] cells (py_round_nd (py_sum cells) 2, 0, 0, 0))
            ''bms_discharge_mos_status'' (VStr st1)) ''bms_charge_mos_status'' (VStr st2)), s')"
    using read_bms_data_realtime [OF assms(1,2,3) rt] by blast
  define data where "data = dict_set (dict_set (store_pack [] cells
      (py_round_nd (py_sum cells) 2, 0, 0, 0))
      ''bms_discharge_mos_status'' (VStr st1)) ''bms_charge_mos_status'' (VStr st2)"
  have v: "map_of data ''bms_battery_voltage'' = Some (VFloat (py_round_nd (py_sum cells) 2))"
    and c: "map_of data ''bms_battery_current'' = Some (VFloat 0)"
    and p: "map_of data ''bms_battery_power''
            = Some (VFloat (py_round_nd (py_mul (py_round_nd (py_sum cells) 2) 0) 2))"
    by (simp_all add: data_def map_of_dict_set map_of_store_pack)
  have z: "py_round_nd (py_mul (py_round_nd (py_sum cells) 2) 0) 2 = 0"
    by (rule zero_power)
  have sc: "series_count \<le> 24" using read_series_count_range [OF assms(2)] by simp
  have n: "\<forall>k. \<bar>(\<Sum>i\<leftarrow>[0..<series_count]. cell_mv d i) - 10 * k\<bar> \<le> 4 \<longrightarrow>
              py_round_nd (py_sum cells) 2 = py_truediv k 100"
    using round2_cells [OF assms(6) sc] by blast
  have cyc: "map_of (fst (read_all_devices s0)) ''bms_battery_voltage''
                = Some (VFloat (py_round_nd (py_sum cells) 2))
              \<and> map_of (fst (read_all_devices s0)) ''bms_battery_current'' = Some (VFloat 0)
              \<and> map_of (fst (read_all_devices s0)) ''bms_battery_power'' = Some (VFloat 0)"
    if h: "read_mppt_data s0 = (mppt_data, sa) \<and> read_env_data sa = (env_data, sb)
              \<and> read_ldr_data sb = (ldr_data, s)"
    for s0 mppt_data sa env_data sb ldr_data
  proof -
    obtain pir_data s5 where pir: "read_pir_data s' = (pir_data, s5)"
      by (cases "read_pir_data s'")
    have rb': "read_bms_data s = (Some data, s')" using rb by (simp add: data_def)
    have u: "read_all_devices s0
     = (merge_reading (merge_reading (merge_reading (merge_reading (merge_reading []
          mppt_data) env_data) ldr_data) (Some data)) pir_data, s5)"
      by (rule read_all_devices_unfold [OF h [THEN conjunct1] h [THEN conjunct2, THEN conjunct1]
            h [THEN conjunct2, THEN conjunct2] rb' pir])
    have kd: "\<forall>x. Some data = Some x \<longrightarrow> keys_distinct x"
      using read_bms_data_shape [OF rb'] by blast
    have kp: "\<forall>x. pir_data = Some x \<longrightarrow> keys_distinct x"
      using read_pir_data_shape [OF pir] by blast
    have m: "map_of (fst (read_all_devices s0)) k = map_of data k"
      if "k \<noteq> ''pir_motion_detected''" "map_of data k \<noteq> None" for k
    proof -
      have "map_of (fst (read_all_devices s0))
          = map_of (merge_reading (merge_reading (merge_reading (merge_reading []
              mppt_data) env_data) ldr_data) (Some data)) ++ reading_map pir_data"
        unfolding u fst_conv by (rule map_of_merge_reading [OF kp])
      also have "map_of (merge_reading (merge_reading (merge_reading (merge_reading []
              mppt_data) env_data) ldr_data) (Some data))
          = map_of (merge_reading (merge_reading (merge_reading []
              mppt_data) env_data) ldr_data) ++ reading_map (Some data)"
        by (rule map_of_merge_reading [OF kd])
      finally show ?thesis
        using that read_pir_data_keys [OF pir that(1)]
        by (auto simp add: map_add_def reading_map_def split: option.splits)
    qed
    show ?thesis using m v c p z by simp
  qed
  from rb v c p z n cyc show ?thesis unfolding data_def by blast
qed

theorem C5_locator_miss_fallback_witness:
  "map_option (\<lambda>data. (map_of data ''bms_battery_voltage'', map_of data ''bms_battery_current'',
                          map_of data ''bms_battery_power''))
     (fst (read_bms_data bms_bus_miss)) = Some (Some (VFloat 13), Some (VFloat 0), Some (VFloat 0))"
proof -
  let ?m1 = "snd (bms_send bms_bus_miss 0x27)"
  let ?m2 = "snd (bms_send ?m1 0x00)"
  have a: "bms_send bms_bus_miss 0x27 = (Some rx_count_4, ?m1)"
    using bms_bus_miss_facts(1) by (simp add: prod_eq_iff)
  have b: "bms_send ?m1 0x00 = (Some rx_realtime_1313, ?m2)"
    using bms_bus_miss_facts(2) by (simp add: prod_eq_iff)
  have l: "length rx_realtime_1313 > 20" by (simp add: bms_bus_miss_facts(4))
  obtain cells where c: "cell_voltages payload_1313 4 = Some cells"
    using payload_1313_cells by blast
  note m = located_nowhere [OF c payload_1313_facts(1-3,5,6) payload_1313_window]
  have "[0..<4] = [0, 1, 2, 3]" by code_simp
  then have s: "\<bar>(\<Sum>i\<leftarrow>[0..<4]. cell_mv payload_1313 i) - 10 * 1300\<bar> \<le> 4"
    using payload_1313_facts(1) by simp
  obtain data s' where r: "read_bms_data bms_bus_miss = (Some data, s')"
    and v: "map_of data ''bms_battery_voltage'' = Some (VFloat (py_round_nd (py_sum cells) 2))"
    and i: "map_of data ''bms_battery_current'' = Some (VFloat 0)"
    and p: "map_of data ''bms_battery_power''
            = Some (VFloat (py_round_nd (py_mul (py_round_nd (py_sum cells) 2) 0) 2))"
    and z: "py_round_nd (py_mul (py_round_nd (py_sum cells) 2) 0) 2 = 0"
    and n: "\<forall>k. \<bar>(\<Sum>i\<leftarrow>[0..<4]. cell_mv payload_1313 i) - 10 * k\<bar> \<le> 4 \<longrightarrow>
              py_round_nd (py_sum cells) 2 = py_truediv k 100"
    using C5_locator_miss_fallback [OF a bms_bus_miss_facts(3) b l bms_bus_miss_facts(5) [symmetric] c m]
    by blast
  have "py_round_nd (py_sum cells) 2 = py_truediv 1300 100"
    using n [rule_format, of 1300] s by blast
  then have "py_round_nd (py_sum cells) 2 = 13" by (simp only: float_examples)
  then show ?thesis using r v i p z by simp
qed

subsection \<open>Poll orchestrator\<close>





end
